theory Spec2Isabelle
  imports Main "HOL-Library.Word"
begin

unbundle bit_operations_syntax

section \<open>Data model\<close>

text \<open>
  Shallow embedding of \<^verbatim>\<open>multithreaded_compressor.cpp\<close>. Bytes are \<open>8 word\<close>
  (\<^verbatim>\<open>u8\<close>), the in-token offset is a \<open>16 word\<close> (\<^verbatim>\<open>u16\<close>), the integers of the
  container are \<open>32 word\<close> and \<open>64 word\<close>. A \<^verbatim>\<open>vector\<close> of bytes is a list. Positions
  inside one in-memory buffer (\<^verbatim>\<open>pos\<close>, \<^verbatim>\<open>i\<close>, \<^verbatim>\<open>len\<close>, \<^verbatim>\<open>start\<close>) are \<open>nat\<close>: they
  are bounded by the buffer's size plus 255, and a buffer held in memory is far shorter
  than \<open>2 ^ 64\<close> bytes, so \<^verbatim>\<open>size_t\<close> does not wrap there. The conversions to \<^verbatim>\<open>u16\<close>
  and \<^verbatim>\<open>u8\<close> and the 64-bit arithmetic on file sizes are modelled with their
  truncation and wrap-around.

  Every \<^verbatim>\<open>throw runtime_error(msg)\<close> is a constructor of \<open>error\<close>, named after its
  message. An index outside a vector is undefined behaviour in C++; the model makes
  it the result \<open>Out_of_bounds\<close>, so that its absence is a theorem and not an
  assumption.
\<close>

type_synonym u8 = "8 word"
type_synonym u16 = "16 word"
type_synonym u32 = "32 word"
type_synonym u64 = "64 word"

datatype error =
    Corrupt_literal
  | Corrupt_match
  | Invalid_offset
  | Unknown_token_flag
  | Bad_file
  | Not_a_MTC1_file
  | Bad_file_header
  | Bad_file_read
  | Out_of_bounds

definition at :: "'a list \<Rightarrow> nat \<Rightarrow> error + 'a" where
  "at xs i = (if i < length xs then Inr (xs ! i) else Inl Out_of_bounds)"

definition window_size :: nat where
  "window_size = 4096"

definition lookahead :: nat where
  "lookahead = 255"

section \<open>LZ77::compress\<close>

text \<open>
  The inner \<^verbatim>\<open>while (len < lookahead && pos + len < n && input[i + len] == input[pos + len]) ++len;\<close>
  of the match search, returning the final \<^verbatim>\<open>len\<close>.
\<close>

function match_len :: "u8 list \<Rightarrow> nat \<Rightarrow> nat \<Rightarrow> nat \<Rightarrow> error + nat" where
  "match_len input i pos len =
     (if len < lookahead \<and> pos + len < length input then
        (case at input (i + len) of
           Inl e \<Rightarrow> Inl e
         | Inr a \<Rightarrow>
            (case at input (pos + len) of
               Inl e \<Rightarrow> Inl e
             | Inr b \<Rightarrow> if a = b then match_len input i pos (len + 1) else Inr len))
      else Inr len)"
  by pat_completeness auto
termination
  by (relation "measure (\<lambda>(input, i, pos, len). lookahead - len)") auto

declare match_len.simps [simp del]

text \<open>
  The \<^verbatim>\<open>for (size_t i = start; i < pos; ++i)\<close> loop: it keeps \<^verbatim>\<open>(best_off, best_len)\<close>,
  replaces them only when \<^verbatim>\<open>len > best_len\<close>, and breaks once
  \<^verbatim>\<open>best_len == lookahead\<close>.
\<close>

function search :: "u8 list \<Rightarrow> nat \<Rightarrow> nat \<Rightarrow> nat \<Rightarrow> nat \<Rightarrow> error + (nat \<times> nat)" where
  "search input pos i best_off best_len =
     (if i < pos then
        (case match_len input i pos 0 of
           Inl e \<Rightarrow> Inl e
         | Inr len \<Rightarrow>
            (let best_off' = (if len > best_len then pos - i else best_off);
                 best_len' = (if len > best_len then len else best_len)
             in if best_len' = lookahead then Inr (best_off', best_len')
                else search input pos (i + 1) best_off' best_len'))
      else Inr (best_off, best_len))"
  by pat_completeness auto
termination
  by (relation "measure (\<lambda>(input, pos, i, best_off, best_len). pos - i)") auto

declare search.simps [simp del]

definition window_start :: "nat \<Rightarrow> nat" where
  "window_start pos = (if pos > window_size then pos - window_size else 0)"

text \<open>The four bytes pushed for a match: flag, offset high, offset low, length.\<close>

definition match_token :: "nat \<Rightarrow> nat \<Rightarrow> u8 list" where
  "match_token best_off best_len =
     (let off = (word_of_nat best_off :: u16);
          llen = (word_of_nat (min best_len 255) :: u8)
      in [0x01, ucast (drop_bit 8 off AND 0xFF), ucast (off AND 0xFF), llen])"

text \<open>The outer \<^verbatim>\<open>while (pos < n)\<close> loop of \<^verbatim>\<open>LZ77::compress\<close>.\<close>

function compress_loop :: "u8 list \<Rightarrow> nat \<Rightarrow> u8 list \<Rightarrow> error + u8 list" where
  "compress_loop input pos out =
     (if pos < length input then
        (case search input pos (window_start pos) 0 0 of
           Inl e \<Rightarrow> Inl e
         | Inr (best_off, best_len) \<Rightarrow>
            if best_len \<ge> 3 then
              compress_loop input (pos + best_len) (out @ match_token best_off best_len)
            else
              (case at input pos of
                 Inl e \<Rightarrow> Inl e
               | Inr b \<Rightarrow> compress_loop input (pos + 1) (out @ [0x00, b])))
      else Inr out)"
  by pat_completeness auto
termination
  by (relation "measure (\<lambda>(input, pos, out). length input - pos)") auto

declare compress_loop.simps [simp del]

definition compress :: "u8 list \<Rightarrow> error + u8 list" where
  "compress input = compress_loop input 0 []"

section \<open>LZ77::decompress\<close>

text \<open>
  The copy loop of a match, \<^verbatim>\<open>for (size_t i = 0; i < len; ++i) out.push_back(out[start + i]);\<close>.
  Each read sees the bytes the earlier iterations have appended.
\<close>

function copy_match :: "u8 list \<Rightarrow> nat \<Rightarrow> nat \<Rightarrow> nat \<Rightarrow> error + u8 list" where
  "copy_match out start i len =
     (if i < len then
        (case at out (start + i) of
           Inl e \<Rightarrow> Inl e
         | Inr b \<Rightarrow> copy_match (out @ [b]) start (i + 1) len)
      else Inr out)"
  by pat_completeness auto
termination
  by (relation "measure (\<lambda>(out, start, i, len). len - i)") auto

declare copy_match.simps [simp del]

text \<open>
  The \<^verbatim>\<open>while (pos < n)\<close> loop of \<^verbatim>\<open>LZ77::decompress\<close>. \<open>pos\<close> is the position of
  the flag byte; the source increments it as it reads.
\<close>

function decompress_loop :: "u8 list \<Rightarrow> nat \<Rightarrow> u8 list \<Rightarrow> error + u8 list" where
  "decompress_loop input pos out =
     (if pos < length input then
        (case at input pos of
           Inl e \<Rightarrow> Inl e
         | Inr flag \<Rightarrow>
            if flag = 0x00 then
              (if pos + 1 \<ge> length input then Inl Corrupt_literal
               else
                 (case at input (pos + 1) of
                    Inl e \<Rightarrow> Inl e
                  | Inr b \<Rightarrow> decompress_loop input (pos + 2) (out @ [b])))
            else if flag = 0x01 then
              (if pos + 1 + 3 > length input then Inl Corrupt_match
               else
                 (case at input (pos + 1) of
                    Inl e \<Rightarrow> Inl e
                  | Inr hi \<Rightarrow>
                 (case at input (pos + 2) of
                    Inl e \<Rightarrow> Inl e
                  | Inr lo \<Rightarrow>
                 (case at input (pos + 3) of
                    Inl e \<Rightarrow> Inl e
                  | Inr len \<Rightarrow>
                     (let off = (push_bit 8 (ucast hi) OR ucast lo :: u16)
                      in if off = 0 \<or> unat off > length out then Inl Invalid_offset
                         else
                           (case copy_match out (length out - unat off) 0 (unat len) of
                              Inl e \<Rightarrow> Inl e
                            | Inr out' \<Rightarrow> decompress_loop input (pos + 4) out'))))))
            else Inl Unknown_token_flag)
      else Inr out)"
  by pat_completeness auto
termination
  by (relation "measure (\<lambda>(input, pos, out). length input - pos)") auto

declare decompress_loop.simps [simp del]

definition decompress :: "u8 list \<Rightarrow> error + u8 list" where
  "decompress input = decompress_loop input 0 []"

section \<open>Container file\<close>

text \<open>
  A file is the list of its bytes. The file-system calls are outside the program: a file
  that is named exists and can be opened, \<^verbatim>\<open>fread\<close> delivers the bytes that are there and
  \<^verbatim>\<open>fwrite\<close> appends, so \<^verbatim>\<open>cannot open input file\<close> and \<^verbatim>\<open>cannot open output file\<close> are
  not outcomes of the model. \<^verbatim>\<open>fwrite(&x, sizeof x, 1, f)\<close> writes the object representation
  of \<open>x\<close>; the model takes the little-endian one of the x86 targets named in the build
  comments. \<^verbatim>\<open>size_t\<close> has 64 bits and \<^verbatim>\<open>long\<close> has 32, as on the 64-bit Windows targets
  (MinGW, MSVC) the source is written for.
\<close>

definition magic :: "u8 list" where
  "magic = [0x4D, 0x54, 0x43, 0x31]"

definition le_bytes :: "nat \<Rightarrow> 'a::len word \<Rightarrow> u8 list" where
  "le_bytes n w = map (\<lambda>k. ucast (drop_bit (8 * k) w)) [0..<n]"

definition le_word :: "u8 list \<Rightarrow> 'a::len word" where
  "le_word bs = foldr (\<lambda>b acc. ucast b OR push_bit 8 acc) bs 0"

text \<open>
  The loop of \<^verbatim>\<open>write_all\<close>, with the bytes written so far as its state. \<^verbatim>\<open>comp\<close> is the
  chunk's size as a \<^verbatim>\<open>u64\<close>.
\<close>

function write_records :: "u8 list list \<Rightarrow> u64 list \<Rightarrow> nat \<Rightarrow> u8 list \<Rightarrow> error + u8 list" where
  "write_records chunks original_sizes i f =
     (if i < length chunks then
        (case at original_sizes i of
           Inl e \<Rightarrow> Inl e
         | Inr orig \<Rightarrow>
            (let comp = (word_of_nat (length (chunks ! i)) :: u64)
             in write_records chunks original_sizes (i + 1)
                  (f @ le_bytes 8 orig @ le_bytes 8 comp @
                     (if comp \<noteq> 0 then chunks ! i else []))))
      else Inr f)"
  by pat_completeness auto
termination
  by (relation "measure (\<lambda>(chunks, original_sizes, i, f). length chunks - i)") auto

declare write_records.simps [simp del]

definition write_all :: "u8 list list \<Rightarrow> u64 list \<Rightarrow> error + u8 list" where
  "write_all chunks original_sizes =
     write_records chunks original_sizes 0
       (magic @ le_bytes 4 (word_of_nat (length chunks) :: u32))"

text \<open>
  The loop of \<^verbatim>\<open>read_and_decompress_file\<close>: \<open>f\<close> is the unread rest of the container,
  \<open>out\<close> the bytes written to the output file so far; the result is the output file and
  how the loop ended. The body of \<^verbatim>\<open>if (decomp.size() != orig)\<close> is empty in the source, so
  both branches go on to the same write.

  Memory is not modelled: every \<^verbatim>\<open>compbuf.resize\<close> delivers its buffer, and a
  \<^verbatim>\<open>compressed_size\<close> beyond the rest of the file then ends in \<^verbatim>\<open>bad file read\<close>. Where
  \<^verbatim>\<open>resize\<close> itself throws in the source (\<^verbatim>\<open>std::length_error\<close> for a size above
  \<^verbatim>\<open>max_size()\<close>, \<^verbatim>\<open>std::bad_alloc\<close> where the memory is not there), the run stops before
  the \<^verbatim>\<open>fread\<close> with that exception's message in place of \<^verbatim>\<open>bad file read\<close>; the exit code
  and the output file are the same. No record that carries its whole payload is on that
  path.
\<close>

function read_records :: "nat \<Rightarrow> nat \<Rightarrow> u8 list \<Rightarrow> u8 list \<Rightarrow> u8 list \<times> (error + unit)" where
  "read_records cnt i f out =
     (if i < cnt then
        (if length (take 8 f) \<noteq> 8 then (out, Inl Bad_file)
         else
           (let orig = (le_word (take 8 f) :: u64); f1 = drop 8 f
            in if length (take 8 f1) \<noteq> 8 then (out, Inl Bad_file)
               else
                 (let comp = (le_word (take 8 f1) :: u64); f2 = drop 8 f1
                  in if comp \<noteq> 0 \<and> length (take (unat comp) f2) \<noteq> unat comp
                     then (out, Inl Bad_file_read)
                     else
                       (case decompress (take (unat comp) f2) of
                          Inl e \<Rightarrow> (out, Inl e)
                        | Inr decomp \<Rightarrow>
                           read_records cnt (i + 1) (drop (unat comp) f2)
                             (if length decomp \<noteq> unat orig then out @ decomp
                              else out @ decomp)))))
      else (out, Inr ()))"
  by pat_completeness auto
termination
  by (relation "measure (\<lambda>(cnt, i, f, out). cnt - i)") auto

declare read_records.simps [simp del]

text \<open>
  \<^verbatim>\<open>read_and_decompress_file\<close>. The output file is \<open>None\<close> as long as it has not been
  opened: the magic tag and the count are read and checked before \<^verbatim>\<open>fopen(outname, "wb")\<close>.
\<close>

definition read_and_decompress_file :: "u8 list \<Rightarrow> u8 list option \<times> (error + unit)" where
  "read_and_decompress_file f =
     (if length (take 4 f) \<noteq> 4 then (None, Inl Bad_file)
      else if take 4 f \<noteq> magic then (None, Inl Not_a_MTC1_file)
      else if length (take 4 (drop 4 f)) \<noteq> 4 then (None, Inl Bad_file_header)
      else
        (let cnt = (le_word (take 4 (drop 4 f)) :: u32)
         in case read_records (unat cnt) 0 (drop 8 f) [] of
              (out, r) \<Rightarrow> (Some out, r)))"

section \<open>main\<close>

text \<open>
  The decompress branch of \<^verbatim>\<open>main\<close>: everything the run prints, its exit code and the
  output file. \<open>what\<close> is the message of each exception; \<open>Out_of_bounds\<close> is not an
  exception and has none.
\<close>

fun what :: "error \<Rightarrow> string" where
  "what Corrupt_literal = ''corrupt literal''"
| "what Corrupt_match = ''corrupt match''"
| "what Invalid_offset = ''invalid offset''"
| "what Unknown_token_flag = ''unknown token flag''"
| "what Bad_file = ''bad file''"
| "what Not_a_MTC1_file = ''not a MTC1 file''"
| "what Bad_file_header = ''bad file header''"
| "what Bad_file_read = ''bad file read''"
| "what Out_of_bounds = []"

record run =
  exit_code :: int
  output_file :: "u8 list option"
  stdout :: "string list"
  stderr :: "string list"

definition newline :: string where
  "newline = [CHR 0x0A]"

definition main_decompress :: "u8 list \<Rightarrow> run" where
  "main_decompress f =
     (case read_and_decompress_file f of
        (out, Inr u) \<Rightarrow>
          \<lparr>exit_code = 0, output_file = out,
           stdout = [''Decompression done.'' @ newline], stderr = []\<rparr>
      | (out, Inl e) \<Rightarrow>
          \<lparr>exit_code = 1, output_file = out,
           stdout = [], stderr = [''Error: '' @ what e @ newline]\<rparr>)"

text \<open>
  The compress branch of \<^verbatim>\<open>main\<close>, from the input file's bytes and \<^verbatim>\<open>chunk_size\<close> to the
  container it writes, or to the reason it writes none. The two \<^verbatim>\<open>return 1\<close> are named
  after their messages. A \<^verbatim>\<open>chunk_size\<close> of zero divides by zero, which is undefined in C++
  and traps on x86. The progress lines on \<^verbatim>\<open>cout\<close> are left out.

  \<^verbatim>\<open>file_size\<close> and \<^verbatim>\<open>read_file_chunk\<close> are the two file helpers on a file that exists. Both
  go through \<^verbatim>\<open>long\<close>, whose values are the integers from \<open>- 2 ^ 31\<close> up to \<open>2 ^ 31 - 1\<close>
  (\<open>2 ^ 31\<close> is \<open>0x80000000\<close>, \<open>2 ^ 32\<close> is \<open>0x100000000\<close>).
  \<^verbatim>\<open>ftell\<close> at the end of the file returns the length where a \<^verbatim>\<open>long\<close> holds it and fails
  with \<open>-1\<close> where it does not; \<^verbatim>\<open>(u64) s\<close> is \<open>s\<close> modulo \<open>2 ^ 64\<close>, so a failed \<^verbatim>\<open>ftell\<close>
  becomes the size \<open>2 ^ 64 - 1\<close>. \<^verbatim>\<open>(long)offset\<close> keeps the low 32 bits of the offset, read
  as two's complement; \<^verbatim>\<open>fseek\<close> to a negative position fails and the helper returns no
  bytes, a position past the end is accepted and the read returns no bytes. Under a 64-bit
  \<^verbatim>\<open>long\<close> the two helpers do the same as here on every file shorter than \<open>2 ^ 31\<close> bytes.

  The worker pool runs one \<^verbatim>\<open>compress\<close> per chunk and \<^verbatim>\<open>main\<close> stores each result at the
  index its task carries, so the vector \<^verbatim>\<open>compressed_chunks\<close> does not depend on the order
  in which the tasks finish: it is \<open>compress\<close> mapped over the chunks.
\<close>

datatype failure =
    Cannot_read_input_or_file_empty
  | Failed_to_read_chunk nat
  | Division_by_zero
  | Task_failed error
  | Failed_to_write_output error

definition long_of_u64 :: "u64 \<Rightarrow> int" where
  "long_of_u64 x =
     (let m = uint x mod 0x100000000
      in if m < 0x80000000 then m else m - 0x100000000)"

definition ftell_at_end :: "u8 list \<Rightarrow> int" where
  "ftell_at_end file =
     (let s = int (length file) in if s < 0x80000000 then s else - 1)"

definition file_size :: "u8 list \<Rightarrow> u64" where
  "file_size file = (let s = ftell_at_end file in word_of_int s)"

definition read_file_chunk :: "u8 list \<Rightarrow> u64 \<Rightarrow> u64 \<Rightarrow> u8 list" where
  "read_file_chunk file offset sz =
     (let pos = long_of_u64 offset
      in if pos < 0 then [] else take (unat sz) (drop (nat pos) file))"

definition num_chunks_of :: "u64 \<Rightarrow> u64 \<Rightarrow> u64" where
  "num_chunks_of fsize chunk_size = (fsize + chunk_size - 1) div chunk_size"

definition read_sz_of :: "u64 \<Rightarrow> u64 \<Rightarrow> nat \<Rightarrow> u64" where
  "read_sz_of fsize chunk_size i = min chunk_size (fsize - word_of_nat i * chunk_size)"

function read_chunks ::
  "u8 list \<Rightarrow> u64 \<Rightarrow> u64 \<Rightarrow> nat \<Rightarrow> nat \<Rightarrow> u8 list list \<Rightarrow> failure + u8 list list" where
  "read_chunks file fsize chunk_size num_chunks i chunks =
     (if i < num_chunks then
        (let offset = word_of_nat i * chunk_size;
             read_sz = read_sz_of fsize chunk_size i;
             chunk = read_file_chunk file offset read_sz
         in if chunk = [] \<and> read_sz \<noteq> 0 then Inl (Failed_to_read_chunk i)
            else read_chunks file fsize chunk_size num_chunks (i + 1) (chunks @ [chunk]))
      else Inr chunks)"
  by pat_completeness auto
termination
  by (relation "measure (\<lambda>(file, fsize, chunk_size, num_chunks, i, chunks). num_chunks - i)") auto

declare read_chunks.simps [simp del]

fun compress_all :: "u8 list list \<Rightarrow> error + u8 list list" where
  "compress_all [] = Inr []"
| "compress_all (chunk # chunks) =
     (case compress chunk of
        Inl e \<Rightarrow> Inl e
      | Inr compressed \<Rightarrow>
         (case compress_all chunks of
            Inl e \<Rightarrow> Inl e
          | Inr rest \<Rightarrow> Inr (compressed # rest)))"

definition original_sizes_of :: "u64 \<Rightarrow> u64 \<Rightarrow> nat \<Rightarrow> u64 list" where
  "original_sizes_of fsize chunk_size num_chunks =
     map (\<lambda>i. if i = num_chunks - 1 then fsize - word_of_nat i * chunk_size else chunk_size)
       [0..<num_chunks]"

definition main_compress :: "u8 list \<Rightarrow> u64 \<Rightarrow> failure + u8 list" where
  "main_compress file chunk_size =
     (let fsize = file_size file
      in if fsize = 0 then Inl Cannot_read_input_or_file_empty
         else if chunk_size = 0 then Inl Division_by_zero
         else
           (let num_chunks = unat (num_chunks_of fsize chunk_size)
            in case read_chunks file fsize chunk_size num_chunks 0 [] of
                 Inl e \<Rightarrow> Inl e
               | Inr chunks \<Rightarrow>
                  (case compress_all chunks of
                     Inl e \<Rightarrow> Inl (Task_failed e)
                   | Inr compressed_chunks \<Rightarrow>
                      (case write_all compressed_chunks
                              (original_sizes_of fsize chunk_size num_chunks) of
                         Inl e \<Rightarrow> Inl (Failed_to_write_output e)
                       | Inr container \<Rightarrow> Inr container))))"

text \<open>
  The bytes \<^verbatim>\<open>write_all\<close> writes for one record and for a list of records, and the errors
  that the error handling design calls format errors (bad magic tag, truncated header or
  record).
\<close>

definition record_bytes :: "u64 \<Rightarrow> u8 list \<Rightarrow> u8 list" where
  "record_bytes orig chunk =
     le_bytes 8 orig @ le_bytes 8 (word_of_nat (length chunk) :: u64) @
       (if (word_of_nat (length chunk) :: u64) \<noteq> 0 then chunk else [])"

definition records_bytes :: "(u64 \<times> u8 list) list \<Rightarrow> u8 list" where
  "records_bytes recs = concat (map (\<lambda>(orig, chunk). record_bytes orig chunk) recs)"

definition format_error :: "error \<Rightarrow> bool" where
  "format_error e \<longleftrightarrow> e \<in> {Bad_file, Not_a_MTC1_file, Bad_file_header, Bad_file_read}"

text \<open>
  The round trip through the two branches of \<^verbatim>\<open>main\<close> as the specification states it:
  compressing \<open>B\<close> writes a container, and decompressing that container writes \<open>B\<close>. Then two
  containers of one record whose token stream decodes to one byte: the first declares an
  \<^verbatim>\<open>original_size\<close> of 5, the second of 1.
\<close>

definition pipeline_roundtrip_holds :: "u8 list \<Rightarrow> u64 \<Rightarrow> bool" where
  "pipeline_roundtrip_holds B chunk_size =
     (case main_compress B chunk_size of
        Inl e \<Rightarrow> False
      | Inr container \<Rightarrow> read_and_decompress_file container = (Some B, Inr ()))"

definition mismatch_container :: "u8 list" where
  "mismatch_container =
     magic @ [1, 0, 0, 0] @ [5, 0, 0, 0, 0, 0, 0, 0] @ [2, 0, 0, 0, 0, 0, 0, 0] @ [0x00, 0x41]"

definition matching_container :: "u8 list" where
  "matching_container =
     magic @ [1, 0, 0, 0] @ [1, 0, 0, 0, 0, 0, 0, 0] @ [2, 0, 0, 0, 0, 0, 0, 0] @ [0x00, 0x41]"

section \<open>Candidate matches\<close>

text \<open>
  \<open>is_match input i pos m\<close>: the \<open>m\<close> bytes at \<open>i\<close> equal the \<open>m\<close> bytes at \<open>pos\<close>, within
  the input and within the lookahead limit; a candidate match of length \<open>m\<close> at
  distance \<open>pos - i\<close>.
\<close>

definition is_match :: "u8 list \<Rightarrow> nat \<Rightarrow> nat \<Rightarrow> nat \<Rightarrow> bool" where
  "is_match input i pos m \<longleftrightarrow>
     m \<le> lookahead \<and> pos + m \<le> length input \<and>
     (\<forall>j \<in> {0..<m}. input ! (i + j) = input ! (pos + j))"

text \<open>
  The loop invariant of \<open>search\<close> after the candidates below \<open>i\<close>: no candidate seen so
  far is longer than \<open>bl\<close>; when \<open>bl\<close> is positive, \<open>bo\<close> is the distance of a candidate
  of that length, and no candidate before it in scan order reaches that length.
\<close>

definition best_upto :: "u8 list \<Rightarrow> nat \<Rightarrow> nat \<Rightarrow> nat \<Rightarrow> nat \<Rightarrow> bool" where
  "best_upto input pos i bo bl \<longleftrightarrow>
     (\<forall>i'. window_start pos \<le> i' \<and> i' < i \<longrightarrow> \<not> is_match input i' pos (Suc bl)) \<and>
     (if bl = 0 then bo = 0
      else 1 \<le> bo \<and> window_start pos + bo \<le> pos \<and> pos - bo < i \<and>
           is_match input (pos - bo) pos bl \<and>
           (\<forall>i'. window_start pos \<le> i' \<and> i' < pos - bo \<longrightarrow> \<not> is_match input i' pos bl))"


section \<open>Tokens\<close>

text \<open>
  The token stream as the comment above \<^verbatim>\<open>struct LZ77\<close> and the format description lay
  it out: a literal is the flag \<open>0x00\<close> and one byte, a match is the flag \<open>0x01\<close>, a
  two-byte big-endian offset and a one-byte length. These definitions follow the format's
  description, not the code; the theorems below relate the code to them.
\<close>

datatype token = Literal u8 | Match u16 u8

fun token_bytes :: "token \<Rightarrow> u8 list" where
  "token_bytes (Literal b) = [0x00, b]"
| "token_bytes (Match off len) = [0x01, ucast (drop_bit 8 off), ucast off, len]"

definition stream_bytes :: "token list \<Rightarrow> u8 list" where
  "stream_bytes ts = concat (map token_bytes ts)"

definition be16 :: "u8 \<Rightarrow> u8 \<Rightarrow> u16" where
  "be16 hi lo = push_bit 8 (ucast hi) OR ucast lo"

text \<open>
  Replaying tokens as the format describes: a match appends \<open>n\<close> bytes, one at a time, each
  the byte \<open>off\<close> places behind the current end of the output.
\<close>

fun copy_back :: "u8 list \<Rightarrow> nat \<Rightarrow> nat \<Rightarrow> u8 list" where
  "copy_back out off 0 = out"
| "copy_back out off (Suc n) = copy_back (out @ [out ! (length out - off)]) off n"

fun replay :: "u8 list \<Rightarrow> token list \<Rightarrow> u8 list" where
  "replay out [] = out"
| "replay out (Literal b # ts) = replay (out @ [b]) ts"
| "replay out (Match off len # ts) = replay (copy_back out (unat off) (unat len)) ts"

text \<open>Every match of the list points into the output replayed before it.\<close>

fun offsets_ok :: "u8 list \<Rightarrow> token list \<Rightarrow> bool" where
  "offsets_ok out [] = True"
| "offsets_ok out (Literal b # ts) = offsets_ok (out @ [b]) ts"
| "offsets_ok out (Match off len # ts) =
     (off \<noteq> 0 \<and> unat off \<le> length out \<and> offsets_ok (copy_back out (unat off) (unat len)) ts)"

text \<open>
  The three ways a stream is corrupt where a token should start, with \<open>out\<close> the output
  decoded so far: the stream ends inside the token, the flag is neither \<open>0x00\<close> nor
  \<open>0x01\<close>, or a complete match has offset \<open>0\<close> or an offset beyond the output.
\<close>

definition ends_mid_token :: "u8 list \<Rightarrow> bool" where
  "ends_mid_token rest =
     (case rest of [] \<Rightarrow> False | f # p \<Rightarrow> (f = 0x00 \<and> length p < 1) \<or> (f = 0x01 \<and> length p < 3))"

definition unknown_flag :: "u8 list \<Rightarrow> bool" where
  "unknown_flag rest = (case rest of [] \<Rightarrow> False | f # p \<Rightarrow> f \<noteq> 0x00 \<and> f \<noteq> 0x01)"

definition bad_offset :: "u8 list \<Rightarrow> u8 list \<Rightarrow> bool" where
  "bad_offset out rest =
     (case rest of
        f # hi # lo # len # r \<Rightarrow> f = 0x01 \<and> (be16 hi lo = 0 \<or> unat (be16 hi lo) > length out)
      | _ \<Rightarrow> False)"

text \<open>The errors that the error handling design calls corruption errors.\<close>

definition corruption_error :: "error \<Rightarrow> bool" where
  "corruption_error e \<longleftrightarrow> e \<in> {Corrupt_literal, Corrupt_match, Invalid_offset, Unknown_token_flag}"

text \<open>The ranges a match emitted by the encoder is claimed to stay in.\<close>

fun token_in_range :: "token \<Rightarrow> bool" where
  "token_in_range (Literal b) = True"
| "token_in_range (Match off len) =
     (1 \<le> unat off \<and> unat off \<le> window_size \<and> 3 \<le> unat len \<and> unat len \<le> 255)"

text \<open>
  The tie-break as the specification words it: among the candidates of the window whose
  match has the length the search returns, the returned offset is the smallest. The input
  \<open>tie_example\<close> is \<^verbatim>\<open>abcXabcYabc\<close>.
\<close>

definition tie_example :: "u8 list" where
  "tie_example = [97, 98, 99, 88, 97, 98, 99, 89, 97, 98, 99]"

definition smallest_offset_among_ties :: "u8 list \<Rightarrow> nat \<Rightarrow> bool" where
  "smallest_offset_among_ties input pos =
     (case search input pos (window_start pos) 0 0 of
        Inl e \<Rightarrow> False
      | Inr (bo, bl) \<Rightarrow> (\<forall>i \<in> {window_start pos..<pos}. is_match input i pos bl \<longrightarrow> bo \<le> pos - i))"

section \<open>Basic facts\<close>

lemma at_Inr [simp]: "i < length xs \<Longrightarrow> at xs i = Inr (xs ! i)"
  by (simp add: at_def)

lemma at_Inl [simp]: "\<not> i < length xs \<Longrightarrow> at xs i = Inl Out_of_bounds"
  by (simp add: at_def)

lemma match_len_spec:
  assumes "i < pos" "is_match input i pos len"
  shows "\<exists>m. match_len input i pos len = Inr m \<and> len \<le> m \<and> is_match input i pos m \<and>
             \<not> is_match input i pos (Suc m)"
  using assms
proof (induction input i pos len rule: match_len.induct)
  case (1 input i pos len)
  show ?case
  proof (cases "len < lookahead \<and> pos + len < length input")
    case False
    with "1.prems" show ?thesis
      by (subst match_len.simps) (auto simp: is_match_def)
  next
    case True
    then have bounds: "i + len < length input" "pos + len < length input"
      using "1.prems" by auto
    show ?thesis
    proof (cases "input ! (i + len) = input ! (pos + len)")
      case False
      with True bounds "1.prems" show ?thesis
        by (subst match_len.simps) (auto simp: is_match_def)
    next
      case eq: True
      have m': "is_match input i pos (len + 1)"
        using True eq "1.prems" by (auto simp: is_match_def less_Suc_eq)
      have "\<exists>m. match_len input i pos (len + 1) = Inr m \<and> len + 1 \<le> m \<and>
                 is_match input i pos m \<and> \<not> is_match input i pos (Suc m)"
        using "1.IH" [OF True, of "input ! (i + len)" "input ! (pos + len)"] bounds eq "1.prems"(1) m'
        by simp
      then show ?thesis
        using True bounds eq by (subst match_len.simps) auto
    qed
  qed
qed

lemma is_match_mono: "is_match input i pos m \<Longrightarrow> k \<le> m \<Longrightarrow> is_match input i pos k"
  by (auto simp: is_match_def)

lemma is_match_0: "pos \<le> length input \<Longrightarrow> is_match input i pos 0"
  by (simp add: is_match_def)

lemma match_len_0:
  assumes "i < pos" "pos \<le> length input"
  shows "\<exists>m. match_len input i pos 0 = Inr m \<and> (\<forall>k. is_match input i pos k \<longleftrightarrow> k \<le> m)"
proof -
  from match_len_spec [OF assms(1) is_match_0 [OF assms(2)]]
  obtain m where m: "match_len input i pos 0 = Inr m" "is_match input i pos m"
    "\<not> is_match input i pos (Suc m)" by blast
  have "is_match input i pos k \<longleftrightarrow> k \<le> m" for k
  proof
    assume "is_match input i pos k"
    then show "k \<le> m" using m(3) is_match_mono [of input i pos k "Suc m"] by (cases "k \<le> m") auto
  next
    assume "k \<le> m" then show "is_match input i pos k" using m(2) is_match_mono by blast
  qed
  with m(1) show ?thesis by blast
qed

lemma best_upto_step_gt:
  assumes inv: "best_upto input pos i bo bl" and i: "window_start pos \<le> i" "i < pos"
    and m: "\<forall>k. is_match input i pos k \<longleftrightarrow> k \<le> m" and gt: "bl < m"
  shows "best_upto input pos (Suc i) (pos - i) m"
proof -
  have a: "\<not> is_match input i' pos (Suc m)" if "window_start pos \<le> i'" "i' < Suc i" for i'
  proof (cases "i' = i")
    case True then show ?thesis using m by auto
  next
    case False
    then have "\<not> is_match input i' pos (Suc bl)" using that inv by (auto simp: best_upto_def)
    then show ?thesis using is_match_mono [of input i' pos "Suc m" "Suc bl"] gt by auto
  qed
  have b: "\<not> is_match input i' pos m" if "window_start pos \<le> i'" "i' < i" for i'
  proof -
    have "\<not> is_match input i' pos (Suc bl)" using that inv by (auto simp: best_upto_def)
    then show ?thesis using is_match_mono [of input i' pos m "Suc bl"] gt by auto
  qed
  have c: "is_match input i pos m" using m by auto
  have d: "pos - (pos - i) = i" using i by simp
  show ?thesis
    unfolding best_upto_def using a b c d i gt by auto
qed

lemma best_upto_step_le:
  assumes inv: "best_upto input pos i bo bl"
    and m: "\<forall>k. is_match input i pos k \<longleftrightarrow> k \<le> m" and le: "m \<le> bl"
  shows "best_upto input pos (Suc i) bo bl"
proof -
  have a: "\<not> is_match input i' pos (Suc bl)" if "window_start pos \<le> i'" "i' < Suc i" for i'
  proof (cases "i' = i")
    case True then show ?thesis using m le by auto
  next
    case False
    then show ?thesis using that inv by (auto simp: best_upto_def)
  qed
  show ?thesis
    using inv a unfolding best_upto_def by (auto simp: less_Suc_eq)
qed

lemma best_upto_final:
  assumes "best_upto input pos i bo bl" "bl = lookahead \<or> i = pos" "i \<le> pos"
  shows "best_upto input pos pos bo bl"
  using assms unfolding best_upto_def by (auto simp: is_match_def)

lemma search_spec:
  assumes "window_start pos \<le> i" "i \<le> pos" "pos \<le> length input" "bl < lookahead"
    "best_upto input pos i bo bl"
  shows "\<exists>bo' bl'. search input pos i bo bl = Inr (bo', bl') \<and> best_upto input pos pos bo' bl' \<and> bl' \<le> lookahead"
  using assms
proof (induction input pos i bo bl rule: search.induct)
  case (1 input pos i bo bl)
  show ?case
  proof (cases "i < pos")
    case False
    with "1.prems" have "best_upto input pos pos bo bl" by (auto intro: best_upto_final)
    with False "1.prems"(4) show ?thesis by (subst search.simps) simp
  next
    case True
    from match_len_0 [OF True "1.prems"(3)] obtain m where
      m: "match_len input i pos 0 = Inr m" "\<forall>k. is_match input i pos k \<longleftrightarrow> k \<le> m" by blast
    have mle: "m \<le> lookahead" using m(2) by (auto simp: is_match_def)
    define bo' where "bo' = (if m > bl then pos - i else bo)"
    define bl' where "bl' = (if m > bl then m else bl)"
    have inv': "best_upto input pos (Suc i) bo' bl'"
      using best_upto_step_gt [OF "1.prems"(5) "1.prems"(1) True m(2)]
            best_upto_step_le [OF "1.prems"(5) m(2)]
      by (auto simp: bo'_def bl'_def)
    have ble: "bl' \<le> lookahead" using mle "1.prems"(4) by (simp add: bl'_def)
    have unfold: "search input pos i bo bl =
        (if bl' = lookahead then Inr (bo', bl') else search input pos (i + 1) bo' bl')"
      using True m(1) by (subst search.simps) (simp add: bo'_def bl'_def Let_def)
    show ?thesis
    proof (cases "bl' = lookahead")
      case stop: True
      then show ?thesis using unfold best_upto_final [OF inv'] True by auto
    next
      case False
      have "\<exists>bo'' bl''. search input pos (i + 1) bo' bl' = Inr (bo'', bl'') \<and>
              best_upto input pos pos bo'' bl'' \<and> bl'' \<le> lookahead"
        using "1.IH" [OF True m(1) bo'_def bl'_def False] "1.prems"(1,3) True False ble inv'
        by simp
      then show ?thesis using unfold False by simp
    qed
  qed
qed

lemma best_upto_init: "best_upto input pos (window_start pos) 0 0"
  by (auto simp: best_upto_def)

lemma window_start_le: "window_start pos \<le> pos"
  by (simp add: window_start_def)

lemma search_start:
  assumes "pos \<le> length input"
  shows "\<exists>bo bl. search input pos (window_start pos) 0 0 = Inr (bo, bl) \<and>
           best_upto input pos pos bo bl \<and> bl \<le> lookahead"
  using search_spec [OF order_refl window_start_le assms _ best_upto_init]
  by (simp add: lookahead_def)


section \<open>Bytes of a token\<close>

lemma ff_mask: "(0xFF :: u16) = mask 8"
  by (simp add: mask_eq_exp_minus_1)

lemma ucast_mask_hi: "(ucast (drop_bit 8 off AND 0xFF) :: u8) = ucast (drop_bit 8 (off :: u16))"
  unfolding ff_mask by (rule bit_word_eqI) (auto simp: bit_simps)

lemma ucast_mask_lo: "(ucast (off AND 0xFF) :: u8) = ucast (off :: u16)"
  unfolding ff_mask by (rule bit_word_eqI) (auto simp: bit_simps)

lemma be16_split: "be16 (ucast (drop_bit 8 off)) (ucast off) = off"
  unfolding be16_def by (rule bit_word_eqI) (auto simp: bit_simps)

lemma be16_hi: "ucast (drop_bit 8 (be16 hi lo)) = hi"
  unfolding be16_def by (rule bit_word_eqI) (auto simp: bit_simps dest: bit_imp_le_length)

lemma be16_lo: "ucast (be16 hi lo) = lo"
  unfolding be16_def by (rule bit_word_eqI) (auto simp: bit_simps)

lemma match_token_bytes:
  "match_token bo bl = token_bytes (Match (word_of_nat bo) (word_of_nat (min bl 255)))"
  by (simp add: match_token_def Let_def ucast_mask_hi ucast_mask_lo)

subsection \<open>The copy loop against the format's byte-wise copy\<close>

lemma copy_match_copy_back:
  assumes "start + i < length out" "start + off = length out - i" "i \<le> length out"
  shows "copy_match out start i len = Inr (copy_back out off (len - i))"
  using assms
proof (induction out start i len rule: copy_match.induct)
  case (1 out start i len)
  show ?case
  proof (cases "i < len")
    case False
    then show ?thesis by (subst copy_match.simps) simp
  next
    case True
    then obtain k where k: "len - i = Suc k" by (cases "len - i") auto
    have idx: "length out - off = start + i" using "1.prems" by simp
    have "copy_match (out @ [out ! (start + i)]) start (i + 1) len =
          Inr (copy_back (out @ [out ! (start + i)]) off (len - (i + 1)))"
      using "1.IH" [OF True, of "out ! (start + i)"] "1.prems" by simp
    moreover have "len - (i + 1) = k" using k by simp
    ultimately show ?thesis
      using True "1.prems"(1) k idx by (subst copy_match.simps) simp
  qed
qed

lemma copy_match_ok:
  assumes "1 \<le> off" "off \<le> length out"
  shows "copy_match out (length out - off) 0 len = Inr (copy_back out off len)"
  using copy_match_copy_back [of "length out - off" 0 out off len] assms by simp

subsection \<open>One token of the decoder\<close>

lemma dl_end: "decompress_loop pre (length pre) out = Inr out"
  by (subst decompress_loop.simps) simp

lemma dl_literal:
  "decompress_loop (pre @ 0 # b # rest) (length pre) out =
   decompress_loop (pre @ 0 # b # rest) (length pre + 2) (out @ [b])"
  by (subst decompress_loop.simps) (simp add: nth_append)

lemma dl_match:
  assumes "be16 hi lo \<noteq> 0" "unat (be16 hi lo) \<le> length out"
  shows "decompress_loop (pre @ 1 # hi # lo # len # rest) (length pre) out =
         decompress_loop (pre @ 1 # hi # lo # len # rest) (length pre + 4)
           (copy_back out (unat (be16 hi lo)) (unat len))"
proof -
  have "1 \<le> unat (be16 hi lo)" using assms(1) by (simp add: unat_gt_0 Suc_le_eq)
  from copy_match_ok [OF this assms(2)] assms show ?thesis
    by (subst decompress_loop.simps) (simp add: nth_append be16_def Let_def)
qed

lemma dl_corrupt_literal: "decompress_loop (pre @ [0]) (length pre) out = Inl Corrupt_literal"
  by (subst decompress_loop.simps) (simp add: nth_append)

lemma dl_corrupt_match:
  "length p < 3 \<Longrightarrow> decompress_loop (pre @ 1 # p) (length pre) out = Inl Corrupt_match"
  by (subst decompress_loop.simps) (simp add: nth_append)

lemma dl_unknown:
  "f \<noteq> 0 \<Longrightarrow> f \<noteq> 1 \<Longrightarrow> decompress_loop (pre @ f # r) (length pre) out = Inl Unknown_token_flag"
  by (subst decompress_loop.simps) (simp add: nth_append)

lemma dl_bad_offset:
  assumes "be16 hi lo = 0 \<or> unat (be16 hi lo) > length out"
  shows "decompress_loop (pre @ 1 # hi # lo # len # rest) (length pre) out = Inl Invalid_offset"
  using assms by (subst decompress_loop.simps) (auto simp add: nth_append be16_def Let_def)

lemma stream_bytes_Cons: "stream_bytes (t # ts) = token_bytes t @ stream_bytes ts"
  by (simp add: stream_bytes_def)

lemma stream_bytes_Nil: "stream_bytes [] = []"
  by (simp add: stream_bytes_def)

lemma stream_bytes_append: "stream_bytes (ts @ us) = stream_bytes ts @ stream_bytes us"
  by (simp add: stream_bytes_def)

lemma dl_tokens:
  assumes "offsets_ok out ts"
  shows "decompress_loop (pre @ stream_bytes ts @ rest) (length pre) out =
         decompress_loop (pre @ stream_bytes ts @ rest) (length pre + length (stream_bytes ts))
           (replay out ts)"
  using assms
proof (induction ts arbitrary: pre out)
  case Nil
  then show ?case by (simp add: stream_bytes_Nil)
next
  case (Cons t ts)
  show ?case
  proof (cases t)
    case (Literal b)
    have ok: "offsets_ok (out @ [b]) ts" using Cons.prems Literal by simp
    have "decompress_loop (pre @ 0 # b # (stream_bytes ts @ rest)) (length pre) out =
          decompress_loop ((pre @ [0, b]) @ stream_bytes ts @ rest) (length (pre @ [0, b])) (out @ [b])"
      using dl_literal [of pre b "stream_bytes ts @ rest" out] by simp
    also have "\<dots> = decompress_loop ((pre @ [0, b]) @ stream_bytes ts @ rest)
        (length (pre @ [0, b]) + length (stream_bytes ts)) (replay (out @ [b]) ts)"
      by (rule Cons.IH [OF ok])
    finally show ?thesis using Literal by (simp add: stream_bytes_Cons)
  next
    case (Match off len)
    define hi :: u8 where "hi = ucast (drop_bit 8 off)"
    define lo :: u8 where "lo = ucast off"
    have off: "be16 hi lo = off" by (simp add: hi_def lo_def be16_split)
    define out' where "out' = copy_back out (unat off) (unat len)"
    have ok: "off \<noteq> 0" "unat off \<le> length out" "offsets_ok out' ts"
      using Cons.prems Match by (simp_all add: out'_def)
    have four: "length (pre @ [1, hi, lo, len]) = length pre + 4" by simp
    have "decompress_loop (pre @ 1 # hi # lo # len # (stream_bytes ts @ rest)) (length pre) out =
          decompress_loop (pre @ 1 # hi # lo # len # (stream_bytes ts @ rest)) (length pre + 4) out'"
      using dl_match [of hi lo out pre len "stream_bytes ts @ rest"] ok(1,2) off
      by (simp add: out'_def)
    also have "\<dots> = decompress_loop (pre @ 1 # hi # lo # len # (stream_bytes ts @ rest))
        (length pre + 4 + length (stream_bytes ts)) (replay out' ts)"
      using Cons.IH [OF ok(3), of "pre @ [1, hi, lo, len]"] unfolding four by simp
    finally show ?thesis using Match
      by (simp add: stream_bytes_Cons hi_def lo_def out'_def numeral_eq_Suc)
  qed
qed

lemma decompress_tokens:
  assumes "offsets_ok [] ts"
  shows "decompress (stream_bytes ts) = Inr (replay [] ts)"
  using dl_tokens [OF assms, of "[]" "[]"] dl_end [of "stream_bytes ts"]
  by (simp add: decompress_def)

lemma decompress_corrupt:
  assumes "offsets_ok [] ts"
    and "ends_mid_token rest \<or> unknown_flag rest \<or> bad_offset (replay [] ts) rest"
  shows "\<exists>e. decompress (stream_bytes ts @ rest) = Inl e \<and> corruption_error e"
proof -
  let ?pre = "stream_bytes ts"
  have start: "decompress (?pre @ rest) = decompress_loop (?pre @ rest) (length ?pre) (replay [] ts)"
    using dl_tokens [OF assms(1), of "[]" rest] by (simp add: decompress_def)
  from assms(2) consider (a) "rest = [0]" | (b) p where "rest = 1 # p" "length p < 3"
    | (c) f r where "rest = f # r" "f \<noteq> 0" "f \<noteq> 1"
    | (d) hi lo len r where "rest = 1 # hi # lo # len # r"
        "be16 hi lo = 0 \<or> unat (be16 hi lo) > length (replay [] ts)"
    by (auto simp: ends_mid_token_def unknown_flag_def bad_offset_def split: list.splits)
  then show ?thesis
  proof cases
    case a then show ?thesis using start dl_corrupt_literal [of ?pre] by (simp add: corruption_error_def)
  next
    case b then show ?thesis using start dl_corrupt_match [of p ?pre] by (simp add: corruption_error_def)
  next
    case c then show ?thesis using start dl_unknown [of f ?pre r] by (simp add: corruption_error_def)
  next
    case d then show ?thesis using start dl_bad_offset [of hi lo _ ?pre len r] by (simp add: corruption_error_def)
  qed
qed

lemma stream_split:
  "\<exists>ts rest. l = stream_bytes ts @ rest \<and> offsets_ok out ts \<and>
     (rest = [] \<or> ends_mid_token rest \<or> unknown_flag rest \<or> bad_offset (replay out ts) rest)"
proof (induction l arbitrary: out rule: length_induct)
  case (1 l)
  show ?case
  proof (cases l)
    case Nil
    then show ?thesis by (intro exI [of _ "[]"]) (simp add: stream_bytes_Nil)
  next
    case (Cons f p)
    have stop: ?thesis if "ends_mid_token l \<or> unknown_flag l \<or> bad_offset out l"
      using that by (intro exI [of _ "[]"] exI [of _ l]) (simp add: stream_bytes_Nil)
    have "(\<exists>b r. l = 0 # b # r) \<or>
          (\<exists>hi lo len r. l = 1 # hi # lo # len # r \<and> be16 hi lo \<noteq> 0 \<and> unat (be16 hi lo) \<le> length out) \<or>
          (ends_mid_token l \<or> unknown_flag l \<or> bad_offset out l)"
      using Cons
      by (cases "f = 0"; cases "f = 1"; cases p; cases "tl p"; cases "tl (tl p)")
         (auto simp: ends_mid_token_def unknown_flag_def bad_offset_def not_less)
    then consider (lit) b r where "l = 0 # b # r"
      | (mat) hi lo len r where "l = 1 # hi # lo # len # r" "be16 hi lo \<noteq> 0" "unat (be16 hi lo) \<le> length out"
      | (bad) "ends_mid_token l \<or> unknown_flag l \<or> bad_offset out l"
      by blast
    then show ?thesis
    proof cases
      case lit
      from "1.IH" [rule_format, of r "out @ [b]"] lit obtain ts rest where
        "r = stream_bytes ts @ rest" "offsets_ok (out @ [b]) ts"
        "rest = [] \<or> ends_mid_token rest \<or> unknown_flag rest \<or> bad_offset (replay (out @ [b]) ts) rest"
        by auto
      then show ?thesis using lit
        by (intro exI [of _ "Literal b # ts"] exI [of _ rest]) (simp add: stream_bytes_Cons)
    next
      case mat
      let ?out' = "copy_back out (unat (be16 hi lo)) (unat len)"
      from "1.IH" [rule_format, of r ?out'] mat obtain ts rest where
        "r = stream_bytes ts @ rest" "offsets_ok ?out' ts"
        "rest = [] \<or> ends_mid_token rest \<or> unknown_flag rest \<or> bad_offset (replay ?out' ts) rest"
        by auto
      then show ?thesis using mat
        by (intro exI [of _ "Match (be16 hi lo) len # ts"] exI [of _ rest])
           (simp add: stream_bytes_Cons be16_hi be16_lo)
    next
      case bad then show ?thesis by (rule stop)
    qed
  qed
qed

section \<open>The encoder emits a valid token list that replays to its input\<close>

lemma length_copy_back: "length (copy_back out off n) = length out + n"
  by (induction out off n rule: copy_back.induct) auto

lemma replay_append: "replay out (ts @ us) = replay (replay out ts) us"
  by (induction out ts rule: replay.induct) auto

lemma offsets_ok_append:
  "offsets_ok out (ts @ us) \<longleftrightarrow> offsets_ok out ts \<and> offsets_ok (replay out ts) us"
  by (induction out ts rule: offsets_ok.induct) auto

lemma copy_back_take:
  assumes "1 \<le> bo" "bo \<le> pos" "pos + k + n \<le> length input"
    and "\<forall>j < k + n. input ! (pos - bo + j) = input ! (pos + j)"
  shows "copy_back (take (pos + k) input) bo n = take (pos + k + n) input"
  using assms
proof (induction n arbitrary: k)
  case 0
  then show ?case by simp
next
  case (Suc n)
  have len: "length (take (pos + k) input) = pos + k" using Suc.prems(3) by simp
  have idx: "pos + k - bo = pos - bo + k" using Suc.prems(2) by simp
  have lt: "pos - bo + k < pos + k" using Suc.prems(1,2) by simp
  have "take (pos + k) input ! (pos - bo + k) = input ! (pos - bo + k)"
    using lt by (rule nth_take)
  also have "\<dots> = input ! (pos + k)" using Suc.prems(4) [rule_format, of k] by simp
  finally have byte: "take (pos + k) input ! (pos + k - bo) = input ! (pos + k)"
    by (simp only: idx)
  have app: "take (pos + k) input @ [input ! (pos + k)] = take (pos + (k + 1)) input"
    using Suc.prems(3) by (simp add: take_Suc_conv_app_nth)
  have rec: "copy_back (take (pos + (k + 1)) input) bo n = take (pos + (k + 1) + n) input"
  proof (rule Suc.IH [OF Suc.prems(1,2)])
    show "pos + (k + 1) + n \<le> length input" using Suc.prems(3) by simp
    show "\<forall>j<k + 1 + n. input ! (pos - bo + j) = input ! (pos + j)" using Suc.prems(4) by auto
  qed
  have "copy_back (take (pos + k) input) bo (Suc n) =
        copy_back (take (pos + k) input @
          [take (pos + k) input ! (length (take (pos + k) input) - bo)]) bo n"
    by (simp only: copy_back.simps)
  also have "\<dots> = copy_back (take (pos + (k + 1)) input) bo n"
    by (simp only: len byte app)
  also have "\<dots> = take (pos + k + Suc n) input" using rec by simp
  finally show ?case .
qed

lemma copy_back_match:
  assumes "1 \<le> bo" "bo \<le> pos" "is_match input (pos - bo) pos bl"
  shows "copy_back (take pos input) bo bl = take (pos + bl) input"
  using copy_back_take [of bo pos 0 bl input] assms by (simp add: is_match_def)

lemma window_start_bound: "pos - window_start pos \<le> window_size"
  by (simp add: window_start_def)

lemma search_match:
  assumes "pos \<le> length input"
  shows "\<exists>bo bl. search input pos (window_start pos) 0 0 = Inr (bo, bl) \<and>
           best_upto input pos pos bo bl \<and> bl \<le> lookahead \<and>
           (bl \<noteq> 0 \<longrightarrow> 1 \<le> bo \<and> bo \<le> pos \<and> bo \<le> window_size \<and> is_match input (pos - bo) pos bl)"
proof -
  from search_start [OF assms] obtain bo bl where
    s: "search input pos (window_start pos) 0 0 = Inr (bo, bl)" "best_upto input pos pos bo bl"
       "bl \<le> lookahead" by blast
  have "1 \<le> bo \<and> bo \<le> pos \<and> bo \<le> window_size \<and> is_match input (pos - bo) pos bl" if "bl \<noteq> 0"
  proof -
    have b: "1 \<le> bo" "window_start pos + bo \<le> pos" "is_match input (pos - bo) pos bl"
      using s(2) that by (auto simp: best_upto_def)
    then have "bo \<le> pos - window_start pos" by simp
    then have "bo \<le> window_size" using window_start_bound [of pos] by simp
    with b show ?thesis by simp
  qed
  with s show ?thesis by blast
qed

lemma match_token_step:
  assumes "1 \<le> bo" "bo \<le> pos" "bo \<le> window_size" "is_match input (pos - bo) pos bl" "3 \<le> bl"
  shows "\<exists>t. match_token bo bl = token_bytes t \<and> token_in_range t \<and>
             offsets_ok (take pos input) [t] \<and> replay (take pos input) [t] = take (pos + bl) input"
proof -
  let ?off = "word_of_nat bo :: u16" and ?len = "word_of_nat (min bl 255) :: u8"
  have bl: "bl \<le> 255" "pos + bl \<le> length input"
    using assms(4) by (simp_all add: is_match_def lookahead_def)
  have uo: "unat ?off = bo" using assms(3) by (simp add: unat_of_nat window_size_def)
  have ul: "unat ?len = bl" using bl by (simp add: unat_of_nat)
  have nz: "?off \<noteq> 0" using uo assms(1) by (metis not_one_le_zero unat_0)
  have pos: "pos \<le> length input" using bl by simp
  have "copy_back (take pos input) bo bl = take (pos + bl) input"
    by (rule copy_back_match [OF assms(1,2,4)])
  then show ?thesis
    using uo ul nz assms pos bl
    by (intro exI [of _ "Match ?off ?len"]) (simp add: match_token_bytes)
qed

lemma compress_loop_tokens:
  assumes "pos \<le> length input" "out = stream_bytes ts" "offsets_ok [] ts"
    "replay [] ts = take pos input" "\<forall>t \<in> set ts. token_in_range t"
  shows "\<exists>ts'. compress_loop input pos out = Inr (stream_bytes ts') \<and> offsets_ok [] ts' \<and>
            replay [] ts' = input \<and> (\<forall>t \<in> set ts'. token_in_range t)"
  using assms
proof (induction input pos out arbitrary: ts rule: compress_loop.induct)
  case (1 input pos out)
  show ?case
  proof (cases "pos < length input")
    case False
    then have "compress_loop input pos out = Inr out" by (subst compress_loop.simps) simp
    moreover have "take pos input = input" using False by simp
    ultimately show ?thesis using "1.prems" by auto
  next
    case True
    from search_match [OF "1.prems"(1)] obtain bo bl where
      s: "search input pos (window_start pos) 0 0 = Inr (bo, bl)"
      and m: "bl \<noteq> 0 \<longrightarrow> 1 \<le> bo \<and> bo \<le> pos \<and> bo \<le> window_size \<and> is_match input (pos - bo) pos bl"
      by blast
    show ?thesis
    proof (cases "3 \<le> bl")
      case big: True
      then have m': "1 \<le> bo" "bo \<le> pos" "bo \<le> window_size" "is_match input (pos - bo) pos bl"
        using m by auto
      from match_token_step [OF m' big] obtain t where
        t: "match_token bo bl = token_bytes t" "token_in_range t"
           "offsets_ok (take pos input) [t]" "replay (take pos input) [t] = take (pos + bl) input"
        by blast
      have le: "pos + bl \<le> length input" using m'(4) by (simp add: is_match_def)
      have "\<exists>ts'. compress_loop input (pos + bl) (out @ match_token bo bl) = Inr (stream_bytes ts') \<and>
              offsets_ok [] ts' \<and> replay [] ts' = input \<and> (\<forall>t \<in> set ts'. token_in_range t)"
      proof (rule "1.IH"(1) [OF True s refl big le, of "ts @ [t]"])
        show "out @ match_token bo bl = stream_bytes (ts @ [t])"
          using "1.prems"(2) t(1) by (simp add: stream_bytes_append stream_bytes_Cons stream_bytes_Nil)
        show "offsets_ok [] (ts @ [t])" using "1.prems"(3,4) t(3) by (simp add: offsets_ok_append)
        show "replay [] (ts @ [t]) = take (pos + bl) input"
          using "1.prems"(4) t(4) by (simp add: replay_append)
        show "\<forall>t \<in> set (ts @ [t]). token_in_range t" using "1.prems"(5) t(2) by simp
      qed
      moreover have "compress_loop input pos out = compress_loop input (pos + bl) (out @ match_token bo bl)"
        using True s big by (subst compress_loop.simps) simp
      ultimately show ?thesis by simp
    next
      case small: False
      let ?t = "Literal (input ! pos)"
      have "\<exists>ts'. compress_loop input (pos + 1) (out @ [0, input ! pos]) = Inr (stream_bytes ts') \<and>
              offsets_ok [] ts' \<and> replay [] ts' = input \<and> (\<forall>t \<in> set ts'. token_in_range t)"
      proof (rule "1.IH"(2) [OF True s refl small, of "input ! pos" "ts @ [?t]"])
        show "at input pos = Inr (input ! pos)" using True by simp
        show "pos + 1 \<le> length input" using True by simp
        show "out @ [0, input ! pos] = stream_bytes (ts @ [?t])"
          using "1.prems"(2) by (simp add: stream_bytes_append stream_bytes_Cons stream_bytes_Nil)
        show "offsets_ok [] (ts @ [?t])" using "1.prems"(3) by (simp add: offsets_ok_append)
        show "replay [] (ts @ [?t]) = take (pos + 1) input"
          using "1.prems"(4) True by (simp add: replay_append take_Suc_conv_app_nth)
        show "\<forall>t \<in> set (ts @ [?t]). token_in_range t" using "1.prems"(5) by simp
      qed
      moreover have "compress_loop input pos out = compress_loop input (pos + 1) (out @ [0, input ! pos])"
        using True s small by (subst compress_loop.simps) simp
      ultimately show ?thesis by simp
    qed
  qed
qed

lemma compress_tokens:
  "\<exists>ts. compress input = Inr (stream_bytes ts) \<and> offsets_ok [] ts \<and> replay [] ts = input \<and>
        (\<forall>t \<in> set ts. token_in_range t)"
  unfolding compress_def
  by (rule compress_loop_tokens [of 0 input "[]" "[]"]) (simp_all add: stream_bytes_Nil)

lemma roundtrip_codec: "\<exists>c. compress input = Inr c \<and> decompress c = Inr input"
proof -
  from compress_tokens [of input] obtain ts where
    ts: "compress input = Inr (stream_bytes ts)" "offsets_ok [] ts" "replay [] ts = input" by blast
  from decompress_tokens [OF ts(2)] ts(1,3) show ?thesis by simp
qed


text \<open>
  The same from any position: the loop returns the output it was given, followed by the
  bytes of tokens that replay the rest of the input.
\<close>

lemma compress_loop_from:
  assumes "pos \<le> length input"
  shows "\<exists>ts. compress_loop input pos out = Inr (out @ stream_bytes ts) \<and>
           offsets_ok (take pos input) ts \<and> replay (take pos input) ts = input \<and>
           (\<forall>t \<in> set ts. token_in_range t)"
  using assms
proof (induction input pos out rule: compress_loop.induct)
  case (1 input pos out)
  show ?case
  proof (cases "pos < length input")
    case False
    then have "compress_loop input pos out = Inr out" by (subst compress_loop.simps) simp
    moreover have "take pos input = input" using False by simp
    ultimately show ?thesis by (intro exI [of _ "[]"]) (simp add: stream_bytes_Nil)
  next
    case True
    from search_match [OF "1.prems"] obtain bo bl where
      s: "search input pos (window_start pos) 0 0 = Inr (bo, bl)"
      and m: "bl \<noteq> 0 \<longrightarrow> 1 \<le> bo \<and> bo \<le> pos \<and> bo \<le> window_size \<and> is_match input (pos - bo) pos bl"
      by blast
    show ?thesis
    proof (cases "3 \<le> bl")
      case big: True
      then have m': "1 \<le> bo" "bo \<le> pos" "bo \<le> window_size" "is_match input (pos - bo) pos bl"
        using m by auto
      from match_token_step [OF m' big] obtain t where
        t: "match_token bo bl = token_bytes t" "token_in_range t"
           "offsets_ok (take pos input) [t]" "replay (take pos input) [t] = take (pos + bl) input"
        by blast
      have le: "pos + bl \<le> length input" using m'(4) by (simp add: is_match_def)
      from "1.IH"(1) [OF True s refl big le] obtain ts where
        ts: "compress_loop input (pos + bl) (out @ match_token bo bl) =
               Inr ((out @ match_token bo bl) @ stream_bytes ts)"
            "offsets_ok (take (pos + bl) input) ts" "replay (take (pos + bl) input) ts = input"
            "\<forall>t \<in> set ts. token_in_range t"
        by blast
      have step: "compress_loop input pos out =
                  compress_loop input (pos + bl) (out @ match_token bo bl)"
        using True s big by (subst compress_loop.simps) simp
      have "compress_loop input pos out = Inr (out @ stream_bytes (t # ts))"
        using step ts(1) t(1) by (simp add: stream_bytes_Cons)
      moreover have "offsets_ok (take pos input) ([t] @ ts)"
        using t(3,4) ts(2) by (simp only: offsets_ok_append)
      moreover have "replay (take pos input) ([t] @ ts) = input"
        using t(4) ts(3) by (simp only: replay_append)
      moreover have "\<forall>u \<in> set (t # ts). token_in_range u" using t(2) ts(4) by simp
      ultimately show ?thesis by (intro exI [of _ "t # ts"]) simp
    next
      case small: False
      let ?t = "Literal (input ! pos)"
      have at: "at input pos = Inr (input ! pos)" using True by simp
      have le: "pos + 1 \<le> length input" using True by simp
      from "1.IH"(2) [OF True s refl small at le] obtain ts where
        ts: "compress_loop input (pos + 1) (out @ [0, input ! pos]) =
               Inr ((out @ [0, input ! pos]) @ stream_bytes ts)"
            "offsets_ok (take (pos + 1) input) ts" "replay (take (pos + 1) input) ts = input"
            "\<forall>t \<in> set ts. token_in_range t"
        by blast
      have tk: "take (pos + 1) input = take pos input @ [input ! pos]"
        using True by (simp add: take_Suc_conv_app_nth)
      have step: "compress_loop input pos out = compress_loop input (pos + 1) (out @ [0, input ! pos])"
        using True s small by (subst compress_loop.simps) simp
      have "compress_loop input pos out = Inr (out @ stream_bytes (?t # ts))"
        using step ts(1) by (simp add: stream_bytes_Cons)
      moreover have "offsets_ok (take pos input) (?t # ts)" using ts(2) tk by simp
      moreover have "replay (take pos input) (?t # ts) = input" using ts(3) tk by simp
      moreover have "\<forall>u \<in> set (?t # ts). token_in_range u" using ts(4) by simp
      ultimately show ?thesis by (intro exI [of _ "?t # ts"]) simp
    qed
  qed
qed

section \<open>Streams and their tokens\<close>

lemma token_bytes_nonempty: "token_bytes t \<noteq> []"
  by (cases t) auto

lemma stream_bytes_empty: "stream_bytes ts = [] \<longleftrightarrow> ts = []"
  by (cases ts) (auto simp: stream_bytes_def token_bytes_nonempty)

lemma stream_len_bound:
  assumes "\<forall>t \<in> set ts. token_in_range t"
  shows "length (stream_bytes ts) + 2 * length out \<le> 2 * length (replay out ts)"
  using assms
proof (induction ts arbitrary: out)
  case Nil
  then show ?case by (simp add: stream_bytes_Nil)
next
  case (Cons t ts)
  then have IH: "length (stream_bytes ts) + 2 * length out' \<le> 2 * length (replay out' ts)" for out'
    by simp
  show ?case
  proof (cases t)
    case (Literal b)
    then show ?thesis using IH [of "out @ [b]"] by (simp add: stream_bytes_Cons)
  next
    case (Match off len)
    then have "3 \<le> unat len" using Cons.prems by simp
    then show ?thesis
      using IH [of "copy_back out (unat off) (unat len)"] Match
      by (simp add: stream_bytes_Cons length_copy_back)
  qed
qed

lemma token_bytes_inj:
  assumes "token_bytes t @ r = token_bytes u @ r'"
  shows "t = u \<and> r = r'"
proof (cases t; cases u)
  fix o1 l1 o2 l2 assume tu: "t = Match o1 l1" "u = Match o2 l2"
  with assms have e: "(ucast (drop_bit 8 o1) :: u8) = ucast (drop_bit 8 o2)" "(ucast o1 :: u8) = ucast o2"
    "l1 = l2" "r = r'" by simp_all
  have "o1 = be16 (ucast (drop_bit 8 o1)) (ucast o1)" by (simp add: be16_split)
  also have "\<dots> = o2" unfolding e by (simp add: be16_split)
  finally show ?thesis using tu e by simp
qed (use assms in auto)

lemma stream_bytes_inj: "stream_bytes ts = stream_bytes us \<Longrightarrow> ts = us"
proof (induction ts arbitrary: us)
  case Nil
  then show ?case using stream_bytes_empty [of us] by (simp add: stream_bytes_Nil)
next
  case (Cons t ts)
  then obtain u us' where us: "us = u # us'"
    using stream_bytes_empty [of "t # ts"] by (cases us) (auto simp: stream_bytes_Nil)
  with Cons.prems have "token_bytes t @ stream_bytes ts = token_bytes u @ stream_bytes us'"
    by (simp add: stream_bytes_Cons)
  from token_bytes_inj [OF this] Cons.IH us show ?case by simp
qed

lemma decompress_cases:
  "(\<exists>ts. input = stream_bytes ts \<and> offsets_ok [] ts \<and> decompress input = Inr (replay [] ts)) \<or>
   (\<exists>ts rest e. input = stream_bytes ts @ rest \<and> offsets_ok [] ts \<and>
      (ends_mid_token rest \<or> unknown_flag rest \<or> bad_offset (replay [] ts) rest) \<and>
      decompress input = Inl e \<and> corruption_error e)"
proof -
  from stream_split [of input "[]"] obtain ts rest where
    s: "input = stream_bytes ts @ rest" "offsets_ok [] ts"
       "rest = [] \<or> ends_mid_token rest \<or> unknown_flag rest \<or> bad_offset (replay [] ts) rest"
    by blast
  show ?thesis
  proof (cases "rest = []")
    case True
    then show ?thesis using s decompress_tokens [OF s(2)] by auto
  next
    case False
    then have c: "ends_mid_token rest \<or> unknown_flag rest \<or> bad_offset (replay [] ts) rest"
      using s(3) by simp
    from decompress_corrupt [OF s(2) c] s(1,2) c show ?thesis by blast
  qed
qed

lemma compress_loop_step_match:
  assumes "pos < length input" "search input pos (window_start pos) 0 0 = Inr (bo, bl)" "3 \<le> bl"
  shows "compress_loop input pos out = compress_loop input (pos + bl) (out @ match_token bo bl)"
  using assms by (subst compress_loop.simps) simp

lemma compress_loop_step_literal:
  assumes "pos < length input" "search input pos (window_start pos) 0 0 = Inr (bo, bl)" "\<not> 3 \<le> bl"
  shows "compress_loop input pos out = compress_loop input (pos + 1) (out @ [0x00, input ! pos])"
  using assms by (subst compress_loop.simps) simp

lemma search_characterised:
  assumes "pos \<le> length input"
  shows "\<exists>bo bl. search input pos (window_start pos) 0 0 = Inr (bo, bl) \<and> bl \<le> lookahead \<and>
           (\<forall>i \<in> {window_start pos..<pos}. \<not> is_match input i pos (Suc bl)) \<and>
           (bl \<noteq> 0 \<longrightarrow> 1 \<le> bo \<and> bo \<le> pos \<and> bo \<le> window_size \<and> window_start pos \<le> pos - bo \<and>
              is_match input (pos - bo) pos bl \<and>
              (\<forall>i \<in> {window_start pos..<pos - bo}. \<not> is_match input i pos bl))"
proof -
  from search_match [OF assms] obtain bo bl where
    s: "search input pos (window_start pos) 0 0 = Inr (bo, bl)" "best_upto input pos pos bo bl"
       "bl \<le> lookahead"
       "bl \<noteq> 0 \<longrightarrow> 1 \<le> bo \<and> bo \<le> pos \<and> bo \<le> window_size \<and> is_match input (pos - bo) pos bl"
    by blast
  have a: "\<forall>i \<in> {window_start pos..<pos}. \<not> is_match input i pos (Suc bl)"
    using s(2) by (simp add: best_upto_def)
  have b: "window_start pos \<le> pos - bo \<and> (\<forall>i \<in> {window_start pos..<pos - bo}. \<not> is_match input i pos bl)"
    if "bl \<noteq> 0"
    using s(2) that by (auto simp: best_upto_def)
  from s a b show ?thesis by blast
qed

section \<open>Writing and reading a container\<close>

lemma low_byte: "ucast (ucast x :: u8) OR push_bit 8 (drop_bit 8 x) = (x :: 'a::len word)"
proof (rule bit_word_eqI)
  fix n assume "n < LENGTH('a)"
  then show "bit (ucast (ucast x :: u8) OR push_bit 8 (drop_bit 8 x)) n \<longleftrightarrow> bit x n"
    by (cases "n < 8") (auto simp: bit_simps)
qed

lemma length_le_bytes [simp]: "length (le_bytes n w) = n"
  by (simp add: le_bytes_def)

lemma le_word_Nil: "le_word [] = 0"
  by (simp add: le_word_def)

lemma le_word_Cons: "le_word (b # bs) = ucast b OR push_bit 8 (le_word bs)"
  by (simp add: le_word_def)

lemma le_word_bytes_from:
  fixes w :: "'a::len word"
  assumes "LENGTH('a) \<le> 8 * n" "i \<le> n"
  shows "le_word (map (\<lambda>k. ucast (drop_bit (8 * k) w) :: u8) [i..<n]) = drop_bit (8 * i) w"
  using assms(2)
proof (induction "n - i" arbitrary: i)
  case 0
  then have "i = n" by simp
  moreover have "drop_bit (8 * n) w = 0"
    using assms(1) by (intro bit_word_eqI) (auto simp: bit_simps dest: bit_imp_le_length)
  ultimately show ?case by (simp add: le_word_Nil)
next
  case (Suc d)
  then have lt: "i < n" and d: "d = n - Suc i" by simp_all
  have IH: "le_word (map (\<lambda>k. ucast (drop_bit (8 * k) w) :: u8) [Suc i..<n]) = drop_bit (8 * Suc i) w"
    using Suc.hyps(1) [OF d] lt by simp
  have "le_word (map (\<lambda>k. ucast (drop_bit (8 * k) w) :: u8) [i..<n]) =
        ucast (ucast (drop_bit (8 * i) w) :: u8) OR push_bit 8 (drop_bit (8 * Suc i) w)"
    using lt IH by (simp add: upt_conv_Cons le_word_Cons)
  also have "drop_bit (8 * Suc i) w = drop_bit 8 (drop_bit (8 * i) w)"
    by (simp add: drop_bit_drop_bit add.commute)
  finally show ?case by (simp only: low_byte)
qed

lemma le_word_le_bytes:
  fixes w :: "'a::len word"
  assumes "LENGTH('a) \<le> 8 * n"
  shows "le_word (le_bytes n w) = w"
  using le_word_bytes_from [OF assms, of 0 w] by (simp add: le_bytes_def)

lemma le_word_4: "le_word (le_bytes 4 (w :: u32)) = w"
  by (rule le_word_le_bytes) simp

lemma le_word_8: "le_word (le_bytes 8 (w :: u64)) = w"
  by (rule le_word_le_bytes) simp

lemma records_bytes_Nil: "records_bytes [] = []"
  by (simp add: records_bytes_def)

lemma records_bytes_Cons: "records_bytes ((orig, chunk) # recs) = record_bytes orig chunk @ records_bytes recs"
  by (simp add: records_bytes_def)

lemma write_records_eq:
  assumes "length original_sizes = length chunks" "i \<le> length chunks"
  shows "write_records chunks original_sizes i f =
         Inr (f @ records_bytes (drop i (zip original_sizes chunks)))"
  using assms
proof (induction chunks original_sizes i f rule: write_records.induct)
  case (1 chunks original_sizes i f)
  show ?case
  proof (cases "i < length chunks")
    case False
    with "1.prems" show ?thesis by (subst write_records.simps) (simp add: records_bytes_Nil)
  next
    case True
    then have iz: "i < length (zip original_sizes chunks)" using "1.prems" by simp
    have at: "at original_sizes i = Inr (original_sizes ! i)" using True "1.prems" by simp
    have d: "drop i (zip original_sizes chunks) =
             (original_sizes ! i, chunks ! i) # drop (Suc i) (zip original_sizes chunks)"
      using Cons_nth_drop_Suc [OF iz, symmetric] True "1.prems" by simp
    let ?f' = "f @ le_bytes 8 (original_sizes ! i) @
                 le_bytes 8 (word_of_nat (length (chunks ! i)) :: u64) @
                 (if (word_of_nat (length (chunks ! i)) :: u64) \<noteq> 0 then chunks ! i else [])"
    have "write_records chunks original_sizes (i + 1) ?f' =
          Inr (?f' @ records_bytes (drop (i + 1) (zip original_sizes chunks)))"
      using "1.IH" [OF True at refl] "1.prems" True by simp
    moreover have "write_records chunks original_sizes i f =
                   write_records chunks original_sizes (i + 1) ?f'"
      using True at by (subst write_records.simps) (simp add: Let_def)
    ultimately show ?thesis
      by (simp add: d records_bytes_Cons record_bytes_def)
  qed
qed

lemma write_all_eq:
  assumes "length original_sizes = length chunks"
  shows "write_all chunks original_sizes =
         Inr (magic @ le_bytes 4 (word_of_nat (length chunks) :: u32) @
              records_bytes (zip original_sizes chunks))"
  using write_records_eq [OF assms, of 0] by (simp add: write_all_def)

lemma unat_of_nat64: "n < 2 ^ 64 \<Longrightarrow> unat (word_of_nat n :: u64) = n"
  by (simp add: unat_of_nat)

lemma unat_of_nat32: "n < 2 ^ 32 \<Longrightarrow> unat (word_of_nat n :: u32) = n"
  by (simp add: unat_of_nat)

lemma read_one_record:
  assumes "length chunk < 2 ^ 64" "decompress chunk = Inr decomp" "i < cnt"
  shows "read_records cnt i (record_bytes orig chunk @ rest) out =
         read_records cnt (i + 1) rest (out @ decomp)"
proof -
  let ?comp = "word_of_nat (length chunk) :: u64"
  have u: "unat ?comp = length chunk" by (rule unat_of_nat64 [OF assms(1)])
  have body: "(if ?comp \<noteq> 0 then chunk else []) = chunk"
    using u by (cases "chunk = []") (auto simp: unat_eq_0)
  have f: "record_bytes orig chunk @ rest = le_bytes 8 orig @ le_bytes 8 ?comp @ chunk @ rest"
    by (simp add: record_bytes_def body)
  show ?thesis
    unfolding f using assms(2,3) u
    by (subst read_records.simps) (simp add: Let_def le_word_8)
qed

lemma read_records_ok:
  assumes "list_all2 (\<lambda>(orig, chunk) decomp. length chunk < 2 ^ 64 \<and> decompress chunk = Inr decomp) recs ds"
  shows "read_records (i + length recs) i (records_bytes recs @ rest) out = (out @ concat ds, Inr ())"
  using assms
proof (induction recs ds arbitrary: i out rule: list_all2_induct)
  case Nil
  then show ?case by (subst read_records.simps) simp
next
  case (Cons r recs d ds)
  obtain orig chunk where r: "r = (orig, chunk)" by (cases r)
  with Cons.hyps(1) have c: "length chunk < 2 ^ 64" "decompress chunk = Inr d" by simp_all
  have "read_records (i + length (r # recs)) i (records_bytes (r # recs) @ rest) out =
        read_records (Suc i + length recs) (i + 1) (records_bytes recs @ rest) (out @ d)"
    using read_one_record [OF c, of i "i + length (r # recs)" orig "records_bytes recs @ rest" out] r
    by (simp add: records_bytes_Cons)
  also have "\<dots> = ((out @ d) @ concat ds, Inr ())"
    using Cons.IH [of "Suc i" "out @ d"] by simp
  finally show ?case by simp
qed

lemma magic_length: "length magic = 4"
  by (simp add: magic_def)

lemma read_container:
  assumes "length recs < 2 ^ 32"
    and "list_all2 (\<lambda>(orig, chunk) decomp. length chunk < 2 ^ 64 \<and> decompress chunk = Inr decomp) recs ds"
  shows "read_and_decompress_file
           (magic @ le_bytes 4 (word_of_nat (length recs) :: u32) @ records_bytes recs) =
         (Some (concat ds), Inr ())"
proof -
  have "read_records (0 + length recs) 0 (records_bytes recs @ []) [] = ([] @ concat ds, Inr ())"
    by (rule read_records_ok [OF assms(2)])
  then show ?thesis
    using unat_of_nat32 [OF assms(1)]
    by (simp add: read_and_decompress_file_def magic_length le_word_4 Let_def)
qed

section \<open>From the input file to the container and back\<close>

lemma compress_ok:
  "\<exists>c. compress B = Inr c \<and> decompress c = Inr B \<and> length c \<le> 2 * length B"
proof -
  from compress_tokens [of B] obtain ts where
    ts: "compress B = Inr (stream_bytes ts)" "offsets_ok [] ts" "replay [] ts = B"
        "\<forall>t \<in> set ts. token_in_range t" by blast
  have "length (stream_bytes ts) \<le> 2 * length B"
    using stream_len_bound [OF ts(4), of "[]"] ts(3) by simp
  with decompress_tokens [OF ts(2)] ts(1,3) show ?thesis by simp
qed

lemma compress_all_ok:
  "\<exists>comps. compress_all chunks = Inr comps \<and>
     list_all2 (\<lambda>chunk c. decompress c = Inr chunk \<and> length c \<le> 2 * length chunk) chunks comps"
proof (induction chunks)
  case Nil
  then show ?case by simp
next
  case (Cons chunk chunks)
  from compress_ok [of chunk] obtain c where
    c: "compress chunk = Inr c" "decompress c = Inr chunk" "length c \<le> 2 * length chunk" by blast
  from Cons.IH obtain comps where
    comps: "compress_all chunks = Inr comps"
      "list_all2 (\<lambda>chunk c. decompress c = Inr chunk \<and> length c \<le> 2 * length chunk) chunks comps"
    by blast
  from c comps show ?case by simp
qed

subsection \<open>Chunk arithmetic where nothing wraps\<close>

lemma ceil_div_covers: "0 < c \<Longrightarrow> n \<le> ((n + c - 1) div c) * (c :: nat)"
proof -
  assume c: "0 < c"
  have "(n + c - 1) div c * c + (n + c - 1) mod c = n + c - 1" by simp
  moreover have "(n + c - 1) mod c < c" using c by simp
  ultimately show ?thesis by linarith
qed

lemma below_ceil_div:
  assumes "0 < n" "i < (n + c - 1) div (c :: nat)"
  shows "i * c < n"
proof -
  have "Suc i * c \<le> (n + c - 1) div c * c" using assms(2) by (intro mult_le_mono1) simp
  also have "\<dots> \<le> n + c - 1" by simp
  finally show ?thesis using assms(1) by simp
qed

lemma unat_num_chunks:
  assumes "0 < n" "chunk_size \<noteq> 0" "n + unat chunk_size \<le> 2 ^ 64"
  shows "unat (num_chunks_of (word_of_nat n) chunk_size) = (n + unat chunk_size - 1) div unat chunk_size"
proof -
  let ?c = "unat chunk_size"
  have cs: "chunk_size = word_of_nat ?c" by simp
  have "(word_of_nat n :: u64) + chunk_size - 1 = word_of_nat n + word_of_nat ?c - 1" by simp
  also have "\<dots> = word_of_nat (n + ?c) - word_of_nat 1" by simp
  also have "\<dots> = word_of_nat (n + ?c - 1)" using assms(1) by (intro of_nat_diff [symmetric]) simp
  finally have "unat ((word_of_nat n :: u64) + chunk_size - 1) = unat (word_of_nat (n + ?c - 1) :: u64)"
    by (simp only:)
  also have "\<dots> = n + ?c - 1" using assms(1,3) by (intro unat_of_nat64) simp
  finally show ?thesis by (simp only: num_chunks_of_def unat_div)
qed

lemma unat_min: "unat (min a b) = min (unat a) (unat (b :: 'a::len word))"
  by (simp add: min_def word_le_nat_alt)

lemma chunk_words:
  assumes "0 < n" "n < 2 ^ 64" "i < (n + unat chunk_size - 1) div unat chunk_size"
  shows "unat (word_of_nat i * chunk_size :: u64) = i * unat chunk_size"
    and "unat (read_sz_of (word_of_nat n) chunk_size i) = min (unat chunk_size) (n - i * unat chunk_size)"
    and "i * unat chunk_size < n"
proof -
  let ?c = "unat chunk_size"
  show lt: "i * ?c < n" by (rule below_ceil_div [OF assms(1,3)])
  have c: "0 < ?c" using assms(3) by (cases "?c = 0") auto
  have "i \<le> i * ?c" using c by (cases ?c) simp_all
  then have "i < 2 ^ 64" using lt assms(2) by linarith
  then have i: "unat (word_of_nat i :: u64) = i" by (rule unat_of_nat64)
  have m: "unat (word_of_nat i :: u64) * unat chunk_size < 2 ^ LENGTH(64)"
    using i lt assms(2) by simp
  show off: "unat (word_of_nat i * chunk_size :: u64) = i * ?c"
    using unat_mult_lem [THEN iffD1, OF m] i by simp
  have n: "unat (word_of_nat n :: u64) = n" by (rule unat_of_nat64 [OF assms(2)])
  have "word_of_nat i * chunk_size \<le> (word_of_nat n :: u64)"
    using off n lt by (simp add: word_le_nat_alt)
  then have "unat ((word_of_nat n :: u64) - word_of_nat i * chunk_size) = n - i * ?c"
    using off n by (simp add: unat_sub)
  then show "unat (read_sz_of (word_of_nat n) chunk_size i) = min ?c (n - i * ?c)"
    by (simp add: read_sz_of_def unat_min)
qed

lemma long_of_small_offset:
  assumes "unat offset < 2 ^ 31"
  shows "long_of_u64 offset = int (unat offset)"
proof -
  have a: "int (unat offset) = uint offset" by simp
  have "unat offset < 2147483648" using assms by simp
  then have b: "int (unat offset) < 2147483648" by linarith
  have c: "uint offset < 2147483648" using a b by linarith
  have d: "0 \<le> uint offset" by simp
  have m: "uint offset mod 4294967296 = uint offset" using c d by simp
  show ?thesis unfolding long_of_u64_def Let_def m using c by simp
qed

lemma file_size_small:
  assumes "length file < 2 ^ 31"
  shows "file_size file = word_of_nat (length file)"
  using assms by (simp add: file_size_def ftell_at_end_def Let_def)

lemma read_file_chunk_small:
  assumes "unat offset < 2 ^ 31"
  shows "read_file_chunk file offset sz = take (unat sz) (drop (unat offset) file)"
  by (simp add: read_file_chunk_def Let_def long_of_small_offset [OF assms])

lemma read_chunks_eq:
  assumes "0 < length file" "length file < 2 ^ 31" "i \<le> N"
    and "N = (length file + unat chunk_size - 1) div unat chunk_size"
    and "fsize = word_of_nat (length file)"
  shows "read_chunks file fsize chunk_size N i chunks =
         Inr (chunks @ map (\<lambda>j. take (unat chunk_size) (drop (j * unat chunk_size) file)) [i..<N])"
  using assms
proof (induction "file" fsize chunk_size N i chunks rule: read_chunks.induct)
  case (1 fl fsize chunk_size N i chunks)
  let ?c = "unat chunk_size" and ?n = "length fl"
  show ?case
  proof (cases "i < N")
    case False
    with "1.prems"(3) show ?thesis by (subst read_chunks.simps) simp
  next
    case True
    then have iN: "i < (?n + ?c - 1) div ?c" using "1.prems"(4) by simp
    have n64: "?n < 2 ^ 64" using "1.prems"(2) by simp
    note w = chunk_words [OF "1.prems"(1) n64 iN]
    have c: "0 < ?c" using iN by (cases "?c = 0") auto
    have off: "unat (word_of_nat i * chunk_size :: u64) < 2 ^ 31"
      using w(1,3) "1.prems"(2) by simp
    have chunk: "read_file_chunk fl (word_of_nat i * chunk_size)
                   (read_sz_of fsize chunk_size i) = take ?c (drop (i * ?c) fl)"
      by (simp add: read_file_chunk_small [OF off] "1.prems"(5) w(1,2) min_def)
    have chunk': "read_file_chunk fl (word_of_nat i * chunk_size)
                   (read_sz_of (word_of_nat ?n) chunk_size i) = take ?c (drop (i * ?c) fl)"
      using chunk by (simp only: "1.prems"(5))
    have ne: "take ?c (drop (i * ?c) fl) \<noteq> []" using w(3) c by simp
    have "read_chunks fl fsize chunk_size N i chunks =
          read_chunks fl fsize chunk_size N (i + 1)
            (chunks @ [take ?c (drop (i * ?c) fl)])"
      using True ne by (subst read_chunks.simps) (simp add: Let_def chunk)
    also have "\<dots> = Inr ((chunks @ [take ?c (drop (i * ?c) fl)]) @
        map (\<lambda>j. take ?c (drop (j * ?c) fl)) [i + 1..<N])"
      using "1.IH" [OF True refl refl refl] True ne "1.prems"
      by (simp add: chunk chunk')
    finally show ?thesis using True by (simp add: upt_conv_Cons)
  qed
qed

lemma concat_chunks:
  "concat (map (\<lambda>j. take c (drop (j * c) xs)) [0..<N]) = take (N * c) xs"
proof (induction N)
  case 0
  then show ?case by simp
next
  case (Suc N)
  have "take (N * c + c) xs = take (N * c) xs @ take c (drop (N * c) xs)"
    by (simp add: take_add)
  with Suc show ?case by (simp add: add.commute)
qed

lemma length_original_sizes: "length (original_sizes_of fsize chunk_size N) = N"
  by (simp add: original_sizes_of_def)

lemma ceil_div_le:
  assumes "0 < (n :: nat)"
  shows "(n + c - 1) div c \<le> n"
proof (cases "(n + c - 1) div c")
  case 0
  then show ?thesis by simp
next
  case (Suc k)
  then have "k < (n + c - 1) div c" by simp
  from below_ceil_div [OF assms this] have kc: "k * c < n" .
  have "0 < c" using Suc by (cases "c = 0") simp_all
  then have "k \<le> k * c" by (cases c) simp_all
  with kc have "Suc k \<le> n" by linarith
  with Suc show ?thesis by (simp only:)
qed

lemma pipeline_roundtrip:
  assumes "file \<noteq> []" "length file < 2 ^ 31" "chunk_size \<noteq> 0"
    and "length file + unat chunk_size \<le> 2 ^ 64"
  shows "\<exists>container. main_compress file chunk_size = Inr container \<and>
           read_and_decompress_file container = (Some file, Inr ())"
proof -
  let ?n = "length file" and ?c = "unat chunk_size"
  define N where "N = (?n + ?c - 1) div ?c"
  define fsize where "fsize = (word_of_nat ?n :: u64)"
  define chunks where "chunks = map (\<lambda>j. take ?c (drop (j * ?c) file)) [0..<N]"
  have n: "0 < ?n" "?n < 2 ^ 31" using assms(1,2) by simp_all
  have n64: "?n < 2 ^ 64" using assms(2) by simp
  have c: "0 < ?c" using assms(3) by (simp add: unat_gt_0)
  have fsz: "file_size file = fsize" unfolding fsize_def by (rule file_size_small [OF assms(2)])
  have fs: "fsize \<noteq> 0" unfolding fsize_def using n(1) n64 by (intro of_nat_neq_0) simp_all
  have Nw: "unat (num_chunks_of fsize chunk_size) = N"
    unfolding N_def fsize_def by (rule unat_num_chunks [OF n(1) assms(3,4)])
  have rc: "read_chunks file fsize chunk_size N 0 [] = Inr chunks"
    using read_chunks_eq [OF n _ N_def fsize_def, of 0 "[]"] by (simp add: chunks_def)
  from compress_all_ok [of chunks] obtain comps where
    comps: "compress_all chunks = Inr comps"
      "list_all2 (\<lambda>chunk c. decompress c = Inr chunk \<and> length c \<le> 2 * length chunk) chunks comps"
    by blast
  have lc: "length chunks = N" by (simp add: chunks_def)
  have len: "length comps = N" using list_all2_lengthD [OF comps(2)] lc by simp
  define sizes where "sizes = original_sizes_of fsize chunk_size N"
  have ls: "length sizes = length comps" by (simp add: sizes_def length_original_sizes len)
  define container where
    "container = magic @ le_bytes 4 (word_of_nat (length comps) :: u32) @ records_bytes (zip sizes comps)"
  have wa: "write_all comps sizes = Inr container"
    unfolding container_def by (rule write_all_eq [OF ls])
  have mc: "main_compress file chunk_size = Inr container"
    using fs assms(3) wa
    by (simp add: main_compress_def fsz Let_def Nw rc comps(1) sizes_def [symmetric])
  have small: "length chunk \<le> ?n" if "chunk \<in> set chunks" for chunk
    using that by (auto simp: chunks_def)
  have "list_all2 (\<lambda>c chunk. length c < 2 ^ 64 \<and> decompress c = Inr chunk) comps chunks"
  proof (rule list_all2_all_nthI)
    show "length comps = length chunks" using len lc by simp
    fix k assume k: "k < length comps"
    then have "decompress (comps ! k) = Inr (chunks ! k)" "length (comps ! k) \<le> 2 * length (chunks ! k)"
      using list_all2_nthD2 [OF comps(2) k] by simp_all
    moreover have "length (chunks ! k) \<le> ?n" using k len lc by (intro small nth_mem) simp
    ultimately show "length (comps ! k) < 2 ^ 64 \<and> decompress (comps ! k) = Inr (chunks ! k)"
      using assms(2) by simp
  qed
  then have "list_all2 (\<lambda>(orig, chunk) decomp. length chunk < 2 ^ 64 \<and> decompress chunk = Inr decomp)
               (zip sizes comps) chunks"
    using ls by (auto simp: list_all2_conv_all_nth)
  moreover have "length (zip sizes comps) = length comps" using ls by simp
  moreover have "length comps < 2 ^ 32"
  proof -
    have "N \<le> ?n" unfolding N_def by (rule ceil_div_le [OF n(1)])
    with len assms(2) show ?thesis by simp
  qed
  ultimately have "read_and_decompress_file container = (Some (concat chunks), Inr ())"
    using read_container [of "zip sizes comps" chunks] by (simp add: container_def)
  moreover have "concat chunks = file"
    using ceil_div_covers [OF c, of ?n] by (simp add: chunks_def concat_chunks N_def)
  ultimately show ?thesis using mc by simp
qed

subsection \<open>Chunk count and chunk lengths where nothing wraps\<close>

lemma ceil_div_cases:
  assumes "0 < (c :: nat)"
  shows "(n + c - 1) div c = (if n mod c = 0 then n div c else n div c + 1)"
proof -
  define q r where "q = n div c" and "r = n mod c"
  have n: "n = q * c + r" and r: "r < c" using assms by (simp_all add: q_def r_def)
  have split: "(k * c + s) div c = k + s div c" for k s using assms by simp
  show ?thesis
  proof (cases "r = 0")
    case True
    then have "n + c - 1 = q * c + (c - 1)" using assms n by linarith
    then have "(n + c - 1) div c = q + (c - 1) div c" by (simp only: split)
    then have "(n + c - 1) div c = q" using assms by simp
    with True show ?thesis by (simp add: q_def r_def)
  next
    case False
    then have "n + c - 1 = (q + 1) * c + (r - 1)" using n by (simp add: algebra_simps)
    then have "(n + c - 1) div c = q + 1 + (r - 1) div c" by (simp only: split)
    moreover have "r - 1 < c" using r by simp
    ultimately have "(n + c - 1) div c = q + 1" by simp
    with False show ?thesis by (simp add: q_def r_def)
  qed
qed

lemma chunking_without_wrap:
  assumes "0 < n" "n < 2 ^ 64" "chunk_size \<noteq> 0" "n + unat chunk_size \<le> 2 ^ 64"
    and N: "N = unat (num_chunks_of (word_of_nat n) chunk_size)"
  shows "N = (n + unat chunk_size - 1) div unat chunk_size"
    and "N * unat chunk_size < n + unat chunk_size" and "n \<le> N * unat chunk_size"
    and "\<forall>i < N. unat (read_sz_of (word_of_nat n) chunk_size i) =
           (if i < N - 1 then unat chunk_size
            else if n mod unat chunk_size = 0 then unat chunk_size else n mod unat chunk_size)"
    and "\<forall>i < N. original_sizes_of (word_of_nat n) chunk_size N ! i =
           read_sz_of (word_of_nat n) chunk_size i"
proof -
  let ?c = "unat chunk_size"
  have c: "0 < ?c" using assms(3) by (simp add: unat_gt_0)
  show Neq: "N = (n + ?c - 1) div ?c" unfolding N by (rule unat_num_chunks [OF assms(1,3,4)])
  have cases: "N = (if n mod ?c = 0 then n div ?c else n div ?c + 1)"
    unfolding Neq by (rule ceil_div_cases [OF c])
  define q r where "q = n div ?c" and "r = n mod ?c"
  have n: "n = q * ?c + r" and r: "r < ?c" using c by (simp_all add: q_def r_def)
  have cases': "N = (if r = 0 then q else q + 1)" using cases by (simp add: q_def r_def)
  show cover: "n \<le> N * ?c" unfolding Neq by (rule ceil_div_covers [OF c])
  have "N * ?c \<le> n + ?c - 1" unfolding Neq by simp
  then show tight: "N * ?c < n + ?c" using assms(1) by simp
  have last': "n - (N - 1) * ?c = (if r = 0 then ?c else r)"
  proof (cases "r = 0")
    case True
    then have Nq: "N = q" and nq: "n = q * ?c" using cases' n by simp_all
    from nq assms(1) have "0 < q" by (cases q) simp_all
    then have "q * ?c = (q - 1) * ?c + ?c" by (cases q) simp_all
    then have "n - (N - 1) * ?c = ?c" using Nq nq by simp
    then show ?thesis using True by simp
  next
    case False
    then have "N - 1 = q" using cases' by simp
    then have "n - (N - 1) * ?c = r" using n by simp
    then show ?thesis using False by simp
  qed
  have last: "n - (N - 1) * ?c = (if n mod ?c = 0 then ?c else n mod ?c)"
    using last' by (simp add: r_def)
  have r': "n mod ?c < ?c" using c by simp
  have sz: "unat (read_sz_of (word_of_nat n) chunk_size i) =
           (if i < N - 1 then ?c
            else if n mod ?c = 0 then ?c else n mod ?c)" if "i < N" for i
  proof -
    have iN: "i < (n + ?c - 1) div ?c" using that Neq by simp
    note w = chunk_words [OF assms(1,2) iN]
    show ?thesis
    proof (cases "i < N - 1")
      case True
      then have "Suc i * ?c \<le> (N - 1) * ?c" by (intro mult_le_mono1) simp
      moreover have "(N - 1) * ?c + ?c = N * ?c" using that by (cases N) simp_all
      ultimately have "i * ?c + ?c + ?c \<le> N * ?c" by simp
      with tight have "?c \<le> n - i * ?c" by simp
      with True show ?thesis by (simp add: w(2))
    next
      case False
      with that have i: "i = N - 1" by simp
      have le: "n - (N - 1) * ?c \<le> ?c" using last r' by simp
      have "unat (read_sz_of (word_of_nat n) chunk_size i) = min ?c (n - i * ?c)" by (rule w(2))
      also have "\<dots> = n - (N - 1) * ?c" using le unfolding i by (rule min_absorb2)
      also note last
      finally show ?thesis using False by simp
    qed
  qed
  then show "\<forall>i < N. unat (read_sz_of (word_of_nat n) chunk_size i) =
           (if i < N - 1 then ?c
            else if n mod ?c = 0 then ?c else n mod ?c)" by blast
  show "\<forall>i < N. original_sizes_of (word_of_nat n) chunk_size N ! i =
           read_sz_of (word_of_nat n) chunk_size i"
  proof (intro allI impI)
    fix i assume i: "i < N"
    then have iN: "i < (n + ?c - 1) div ?c" using Neq by simp
    note w = chunk_words [OF assms(1,2) iN]
    have rs: "read_sz_of (word_of_nat n) chunk_size i =
        (if i = N - 1 then word_of_nat n - word_of_nat i * chunk_size else chunk_size)"
    proof (cases "i = N - 1")
      case True
      have "unat (read_sz_of (word_of_nat n) chunk_size i) = n - i * ?c"
        using sz [OF i] True last by simp
      moreover have "unat ((word_of_nat n :: u64) - word_of_nat i * chunk_size) = n - i * ?c"
        using w(1,3) assms(2) by (simp add: unat_sub word_le_nat_alt unat_of_nat64)
      ultimately show ?thesis using True by (simp add: word_unat_eq_iff)
    next
      case False
      then have "unat (read_sz_of (word_of_nat n) chunk_size i) = ?c" using sz [OF i] i by simp
      then show ?thesis using False by (simp add: word_unat_eq_iff)
    qed
    show "original_sizes_of (word_of_nat n) chunk_size N ! i = read_sz_of (word_of_nat n) chunk_size i"
      using i by (simp add: original_sizes_of_def rs)
  qed
qed

section \<open>Claims about the codec\<close>

text \<open>
  Claim C2. \<open>decompress\<close> fails exactly when its input is a sequence of well-formed tokens,
  every match pointing into the output decoded before it, followed by a place where the
  stream ends inside a token, or a flag byte other than \<open>0x00\<close> and \<open>0x01\<close>, or a
  complete match whose offset is \<open>0\<close> or exceeds the output decoded so far. Every
  failure is one of the four corruption errors, and a stream of well-formed tokens with
  valid offsets decodes without error to the replay of its tokens.
\<close>

theorem decompress_fails_exactly_on_corruption:
  "((\<exists>e. decompress input = Inl e) \<longleftrightarrow>
      (\<exists>ts rest. input = stream_bytes ts @ rest \<and> offsets_ok [] ts \<and>
         (ends_mid_token rest \<or> unknown_flag rest \<or> bad_offset (replay [] ts) rest))) \<and>
   (\<forall>e. decompress input = Inl e \<longrightarrow> corruption_error e) \<and>
   (\<forall>ts. input = stream_bytes ts \<and> offsets_ok [] ts \<longrightarrow> decompress input = Inr (replay [] ts))"
proof (intro conjI allI impI iffI)
  assume "\<exists>e. decompress input = Inl e"
  with decompress_cases [of input]
  show "\<exists>ts rest. input = stream_bytes ts @ rest \<and> offsets_ok [] ts \<and>
         (ends_mid_token rest \<or> unknown_flag rest \<or> bad_offset (replay [] ts) rest)"
    by auto
next
  assume "\<exists>ts rest. input = stream_bytes ts @ rest \<and> offsets_ok [] ts \<and>
         (ends_mid_token rest \<or> unknown_flag rest \<or> bad_offset (replay [] ts) rest)"
  then obtain ts rest where "input = stream_bytes ts @ rest" "offsets_ok [] ts"
    "ends_mid_token rest \<or> unknown_flag rest \<or> bad_offset (replay [] ts) rest" by blast
  with decompress_corrupt [of ts rest] show "\<exists>e. decompress input = Inl e" by auto
next
  fix e assume "decompress input = Inl e"
  with decompress_cases [of input] show "corruption_error e" by auto
next
  fix ts assume "input = stream_bytes ts \<and> offsets_ok [] ts"
  then show "decompress input = Inr (replay [] ts)" using decompress_tokens by simp
qed

text \<open>
  The statement at the stream \<open>00 41 02\<close>, with the streams of the other failures evaluated
  beside it.
\<close>

theorem decompress_fails_exactly_on_corruption_witness:
  "decompress [0x00, 0x41, 0x02] = Inl Unknown_token_flag \<and>
   decompress [0x00, 0x41, 0x01, 0x00] = Inl Corrupt_match \<and>
   decompress [0x00, 0x41, 0x00] = Inl Corrupt_literal \<and>
   decompress [0x00, 0x41, 0x01, 0x00, 0x02, 0x03] = Inl Invalid_offset \<and>
   decompress [0x00, 0x41, 0x01, 0x00, 0x00, 0x03] = Inl Invalid_offset \<and>
   decompress [0x00, 0x41, 0x01, 0x00, 0x01, 0x03] = Inr [0x41, 0x41, 0x41, 0x41] \<and>
   corruption_error Unknown_token_flag \<and>
   (\<exists>ts rest. [0x00, 0x41, 0x02] = stream_bytes ts @ rest \<and> offsets_ok [] ts \<and>
      (ends_mid_token rest \<or> unknown_flag rest \<or> bad_offset (replay [] ts) rest))"
proof -
  have d: "decompress [0x00, 0x41, 0x02] = Inl Unknown_token_flag" by code_simp
  have "decompress [0x00, 0x41, 0x01, 0x00] = Inl Corrupt_match" by code_simp
  moreover have "decompress [0x00, 0x41, 0x00] = Inl Corrupt_literal" by code_simp
  moreover have "decompress [0x00, 0x41, 0x01, 0x00, 0x02, 0x03] = Inl Invalid_offset" by code_simp
  moreover have "decompress [0x00, 0x41, 0x01, 0x00, 0x00, 0x03] = Inl Invalid_offset" by code_simp
  moreover have "decompress [0x00, 0x41, 0x01, 0x00, 0x01, 0x03] = Inr [0x41, 0x41, 0x41, 0x41]"
    by code_simp
  moreover note d
  moreover from d decompress_fails_exactly_on_corruption [of "[0x00, 0x41, 0x02]"]
  have "corruption_error Unknown_token_flag \<and>
    (\<exists>ts rest. [0x00, 0x41, 0x02] = stream_bytes ts @ rest \<and> offsets_ok [] ts \<and>
      (ends_mid_token rest \<or> unknown_flag rest \<or> bad_offset (replay [] ts) rest))"
    by blast
  ultimately show ?thesis by blast
qed

text \<open>
  Claim C9. \<open>compress\<close> returns an output of at most twice the input's length, and the
  output is empty exactly when the input is: a literal spends two bytes on one input
  byte, a match four bytes on at least three.
\<close>

theorem compress_output_size:
  "\<exists>c. compress B = Inr c \<and> length c \<le> 2 * length B \<and> (c = [] \<longleftrightarrow> B = [])"
proof -
  from compress_tokens [of B] obtain ts where
    ts: "compress B = Inr (stream_bytes ts)" "replay [] ts = B" "\<forall>t \<in> set ts. token_in_range t"
    by blast
  have "length (stream_bytes ts) \<le> 2 * length B"
    using stream_len_bound [OF ts(3), of "[]"] ts(2) by simp
  moreover have "stream_bytes ts = [] \<longleftrightarrow> B = []"
  proof
    assume "stream_bytes ts = []"
    then have "ts = []" by (simp add: stream_bytes_empty)
    with ts(2) show "B = []" by simp
  next
    assume "B = []"
    then have "length (stream_bytes ts) \<le> 0" using \<open>length (stream_bytes ts) \<le> 2 * length B\<close> by simp
    then show "stream_bytes ts = []" by simp
  qed
  ultimately show ?thesis using ts(1) by simp
qed

text \<open>
  Claim C10. Once a match has passed the check \<open>1 \<le> off \<le> length out\<close>, its copy loop
  returns a result for every length, also a length above the offset, so each read
  \<open>out[start + i]\<close> is inside the output at the moment it is made; \<open>decompress\<close> never
  returns \<open>Out_of_bounds\<close>. Every read of the match search is inside the input: the
  inner loop and the search return a result at every position, and so does \<open>compress\<close>.
  All the functions are total, their termination being proved where they are defined.
\<close>

theorem copies_and_searches_stay_in_bounds:
  "(\<forall>out off len. 1 \<le> off \<and> off \<le> length out \<longrightarrow>
      (\<exists>out'. copy_match out (length out - off) 0 len = Inr out' \<and> length out' = length out + len)) \<and>
   decompress input \<noteq> Inl Out_of_bounds \<and>
   (\<forall>i pos. i < pos \<and> pos \<le> length input \<longrightarrow> (\<exists>m. match_len input i pos 0 = Inr m)) \<and>
   (\<forall>pos. pos \<le> length input \<longrightarrow> (\<exists>r. search input pos (window_start pos) 0 0 = Inr r)) \<and>
   (\<exists>c. compress input = Inr c)"
proof (intro conjI allI impI)
  fix out :: "u8 list" and off len assume "1 \<le> off \<and> off \<le> length out"
  then show "\<exists>out'. copy_match out (length out - off) 0 len = Inr out' \<and> length out' = length out + len"
    using copy_match_ok [of off out len] by (simp add: length_copy_back)
next
  show "decompress input \<noteq> Inl Out_of_bounds"
    using decompress_cases [of input] by (auto simp: corruption_error_def)
next
  fix i pos assume "i < pos \<and> pos \<le> length input"
  then show "\<exists>m. match_len input i pos 0 = Inr m" using match_len_0 [of i pos input] by blast
next
  fix pos assume "pos \<le> length input"
  then show "\<exists>r. search input pos (window_start pos) 0 0 = Inr r" using search_start by blast
next
  show "\<exists>c. compress input = Inr c" using compress_tokens [of input] by blast
qed

text \<open>
  The statement at the output \<open>41 42\<close> with offset 2 and length 5, where the copy reads
  bytes it has appended itself, and at the candidate 0 of position 2 in \<open>41 42 41 42 41\<close>.
\<close>

theorem copies_and_searches_stay_in_bounds_witness:
  "copy_match [0x41, 0x42] (2 - 2) 0 5 = Inr [0x41, 0x42, 0x41, 0x42, 0x41, 0x42, 0x41] \<and>
   (\<exists>out'. copy_match [0x41, 0x42] (length [0x41 :: u8, 0x42] - 2) 0 5 = Inr out' \<and>
      length out' = length [0x41 :: u8, 0x42] + 5) \<and>
   (\<exists>m. match_len [0x41, 0x42, 0x41, 0x42, 0x41] 0 2 0 = Inr m)"
proof -
  have "copy_match [0x41, 0x42] (2 - 2) 0 5 = Inr [0x41, 0x42, 0x41, 0x42, 0x41, 0x42, 0x41]"
    by code_simp
  moreover have "\<exists>out'. copy_match [0x41, 0x42] (length [0x41 :: u8, 0x42] - 2) 0 5 = Inr out' \<and>
      length out' = length [0x41 :: u8, 0x42] + 5"
    using copies_and_searches_stay_in_bounds [of "[]", THEN conjunct1, rule_format, of 2 "[0x41, 0x42]" 5]
    by simp
  moreover have "\<exists>m. match_len [0x41, 0x42, 0x41, 0x42, 0x41] 0 2 0 = Inr m"
    using copies_and_searches_stay_in_bounds [of "[0x41, 0x42, 0x41, 0x42, 0x41]",
        THEN conjunct2, THEN conjunct2, THEN conjunct1, rule_format, of 0 2]
    by simp
  ultimately show ?thesis by blast
qed


text \<open>
  Claim C3, as amended. At every position of the input the search returns the greatest
  length any candidate of the window reaches; when that length is not zero, the returned
  offset is the distance of a candidate of that length, and every candidate of the window
  with the same length is at most that far away: among ties the encoder keeps the largest
  offset, the candidate nearest the window floor, because it scans from the floor forward
  and replaces the best match only on a strictly greater length. When the length is at
  least 3, the match token with this offset and length is what the loop appends.
\<close>

theorem search_keeps_farthest_of_ties:
  assumes "pos < length input"
  shows "\<exists>bo bl. search input pos (window_start pos) 0 0 = Inr (bo, bl) \<and>
           (\<forall>i \<in> {window_start pos..<pos}. \<forall>m. is_match input i pos m \<longrightarrow> m \<le> bl) \<and>
           (bl \<noteq> 0 \<longrightarrow> window_start pos \<le> pos - bo \<and> pos - bo < pos \<and>
              is_match input (pos - bo) pos bl) \<and>
           (\<forall>i \<in> {window_start pos..<pos}. bl \<noteq> 0 \<and> is_match input i pos bl \<longrightarrow> pos - i \<le> bo) \<and>
           (3 \<le> bl \<longrightarrow>
              (\<forall>out. compress_loop input pos out =
                 compress_loop input (pos + bl) (out @ match_token bo bl)))"
proof -
  from assms have "pos \<le> length input" by simp
  from search_characterised [OF this] obtain bo bl where
    s: "search input pos (window_start pos) 0 0 = Inr (bo, bl)"
    and mx: "\<forall>i \<in> {window_start pos..<pos}. \<not> is_match input i pos (Suc bl)"
    and b: "bl \<noteq> 0 \<longrightarrow> 1 \<le> bo \<and> bo \<le> pos \<and> bo \<le> window_size \<and> window_start pos \<le> pos - bo \<and>
              is_match input (pos - bo) pos bl \<and>
              (\<forall>i \<in> {window_start pos..<pos - bo}. \<not> is_match input i pos bl)"
    by blast
  have 1: "m \<le> bl" if "i \<in> {window_start pos..<pos}" "is_match input i pos m" for i m
  proof (rule ccontr)
    assume "\<not> m \<le> bl"
    then have "Suc bl \<le> m" by simp
    from is_match_mono [OF that(2) this] mx that(1) show False by blast
  qed
  have 2: "window_start pos \<le> pos - bo \<and> pos - bo < pos \<and> is_match input (pos - bo) pos bl"
    if "bl \<noteq> 0"
    using b that assms by auto
  have 3: "pos - i \<le> bo" if "i \<in> {window_start pos..<pos}" "bl \<noteq> 0" "is_match input i pos bl" for i
  proof (rule ccontr)
    assume "\<not> pos - i \<le> bo"
    then have "i < pos - bo" by simp
    with that(1) have "i \<in> {window_start pos..<pos - bo}" by simp
    with b that(2,3) show False by blast
  qed
  have 4: "compress_loop input pos out = compress_loop input (pos + bl) (out @ match_token bo bl)"
    if "3 \<le> bl" for out
    by (rule compress_loop_step_match [OF assms s that])
  from s 1 2 3 4 show ?thesis by blast
qed

text \<open>
  The statement at position 8 of \<open>tie_example\<close>, where the candidates 0 and 4 both match
  three bytes and the search returns offset 8.
\<close>

theorem search_keeps_farthest_of_ties_witness:
  "8 < length tie_example \<and>
   search tie_example 8 (window_start 8) 0 0 = Inr (8, 3) \<and>
   is_match tie_example 0 8 3 \<and> is_match tie_example 4 8 3 \<and>
   (\<exists>bo bl. search tie_example 8 (window_start 8) 0 0 = Inr (bo, bl) \<and>
      (\<forall>i \<in> {window_start 8..<8}. bl \<noteq> 0 \<and> is_match tie_example i 8 bl \<longrightarrow> 8 - i \<le> bo))"
proof -
  have l: "8 < length tie_example" by (simp add: tie_example_def)
  have "search tie_example 8 (window_start 8) 0 0 = Inr (8, 3)" by code_simp
  moreover have "is_match tie_example 0 8 3" by code_simp
  moreover have "is_match tie_example 4 8 3" by code_simp
  moreover from search_keeps_farthest_of_ties [OF l]
  have "\<exists>bo bl. search tie_example 8 (window_start 8) 0 0 = Inr (bo, bl) \<and>
      (\<forall>i \<in> {window_start 8..<8}. bl \<noteq> 0 \<and> is_match tie_example i 8 bl \<longrightarrow> 8 - i \<le> bo)"
    by blast
  ultimately show ?thesis using l by blast
qed

text \<open>
  Claim C3 as stated fails at position 8 of \<open>tie_example\<close>: the candidate at distance 4
  matches the same three bytes as the one at distance 8, and the last token of the output
  carries offset 8.
\<close>

theorem smallest_offset_counterexample:
  "compress tie_example =
     Inr [0, 97, 0, 98, 0, 99, 0, 88, 1, 0, 4, 3, 0, 89, 1, 0, 8, 3] \<and>
   search tie_example 8 (window_start 8) 0 0 = Inr (8, 3) \<and>
   is_match tie_example 4 8 3 \<and>
   \<not> smallest_offset_among_ties tie_example 8"
proof -
  have "compress tie_example = Inr [0, 97, 0, 98, 0, 99, 0, 88, 1, 0, 4, 3, 0, 89, 1, 0, 8, 3]"
    by code_simp
  moreover have "search tie_example 8 (window_start 8) 0 0 = Inr (8, 3)" by code_simp
  moreover have "is_match tie_example 4 8 3" by code_simp
  moreover have "\<not> smallest_offset_among_ties tie_example 8"
  proof -
    have s: "search tie_example 8 (window_start 8) 0 0 = Inr (8, 3)" by code_simp
    have m: "is_match tie_example 4 8 3" by code_simp
    have "4 \<in> {window_start 8..<8}" by (simp add: window_start_def window_size_def)
    with m show ?thesis unfolding smallest_offset_among_ties_def s by auto
  qed
  ultimately show ?thesis by blast
qed

text \<open>
  Claim C4. \<open>compress\<close> is its loop started at position 0 with no output, and the loop
  returns its output unchanged once the position has reached the end of the input. The
  output of \<open>compress\<close> is the byte form of exactly one token list; that list replays to the
  input, and every match in it has its offset in \<open>[1, window_size]\<close> and its length in
  \<open>[3, 255]\<close>. From any position the loop returns the output it was given followed by the
  bytes of tokens that replay the rest of the input. At a position where some candidate of
  the window matches three bytes, the loop appends a match token whose two fields hold the
  search's offset and length without truncation and continues at the position plus that
  length: its result is the given output, that match, and tokens replaying the input from
  there. At a position where none does, it appends the literal of the byte there and
  continues at the next position: its result is the given output, that literal, and tokens
  replaying the input from the next position.
\<close>

theorem encoder_tokens_in_range:
  "compress input = compress_loop input 0 [] \<and>
   (\<forall>pos out. length input \<le> pos \<longrightarrow> compress_loop input pos out = Inr out) \<and>
   (\<exists>ts. compress input = Inr (stream_bytes ts) \<and>
      (\<forall>us. compress input = Inr (stream_bytes us) \<longrightarrow> us = ts) \<and>
      offsets_ok [] ts \<and> replay [] ts = input \<and>
      (\<forall>t \<in> set ts. token_in_range t)) \<and>
   (\<forall>pos out. pos \<le> length input \<longrightarrow>
      (\<exists>ts. compress_loop input pos out = Inr (out @ stream_bytes ts) \<and>
         offsets_ok (take pos input) ts \<and> replay (take pos input) ts = input \<and>
         (\<forall>t \<in> set ts. token_in_range t))) \<and>
   (\<forall>pos out. pos < length input \<longrightarrow>
      (if \<exists>i \<in> {window_start pos..<pos}. is_match input i pos 3
       then \<exists>bo bl ts. search input pos (window_start pos) 0 0 = Inr (bo, bl) \<and> 3 \<le> bl \<and>
              match_token bo bl = token_bytes (Match (word_of_nat bo) (word_of_nat bl)) \<and>
              unat (word_of_nat bo :: u16) = bo \<and> unat (word_of_nat bl :: u8) = bl \<and>
              token_in_range (Match (word_of_nat bo) (word_of_nat bl)) \<and>
              compress_loop input pos out =
                compress_loop input (pos + bl) (out @ match_token bo bl) \<and>
              compress_loop input pos out =
                Inr (out @ token_bytes (Match (word_of_nat bo) (word_of_nat bl)) @ stream_bytes ts) \<and>
              replay (take (pos + bl) input) ts = input
       else \<exists>ts. compress_loop input pos out =
                compress_loop input (pos + 1) (out @ token_bytes (Literal (input ! pos))) \<and>
              compress_loop input pos out =
                Inr (out @ token_bytes (Literal (input ! pos)) @ stream_bytes ts) \<and>
              replay (take (pos + 1) input) ts = input))"
proof (intro conjI allI impI)
  show "compress input = compress_loop input 0 []" by (simp add: compress_def)
next
  fix pos out assume "length input \<le> pos"
  then show "compress_loop input pos out = Inr out" by (subst compress_loop.simps) simp
next
  from compress_tokens [of input] obtain ts where
    ts: "compress input = Inr (stream_bytes ts)" "offsets_ok [] ts" "replay [] ts = input"
        "\<forall>t \<in> set ts. token_in_range t" by blast
  have "us = ts" if "compress input = Inr (stream_bytes us)" for us
    using that ts(1) stream_bytes_inj [of us ts] by simp
  with ts show "\<exists>ts. compress input = Inr (stream_bytes ts) \<and>
      (\<forall>us. compress input = Inr (stream_bytes us) \<longrightarrow> us = ts) \<and>
      offsets_ok [] ts \<and> replay [] ts = input \<and>
      (\<forall>t \<in> set ts. token_in_range t)" by blast
next
  fix pos out assume "pos \<le> length input"
  then show "\<exists>ts. compress_loop input pos out = Inr (out @ stream_bytes ts) \<and>
         offsets_ok (take pos input) ts \<and> replay (take pos input) ts = input \<and>
         (\<forall>t \<in> set ts. token_in_range t)"
    by (rule compress_loop_from)
next
  fix pos out assume pos: "pos < length input"
  then have "pos \<le> length input" by simp
  from search_characterised [OF this] obtain bo bl where
    s: "search input pos (window_start pos) 0 0 = Inr (bo, bl)" and le: "bl \<le> lookahead"
    and mx: "\<forall>i \<in> {window_start pos..<pos}. \<not> is_match input i pos (Suc bl)"
    and b: "bl \<noteq> 0 \<longrightarrow> 1 \<le> bo \<and> bo \<le> pos \<and> bo \<le> window_size \<and> window_start pos \<le> pos - bo \<and>
              is_match input (pos - bo) pos bl \<and>
              (\<forall>i \<in> {window_start pos..<pos - bo}. \<not> is_match input i pos bl)"
    by blast
  let ?ex = "\<exists>i \<in> {window_start pos..<pos}. is_match input i pos 3"
  have iff: "?ex \<longleftrightarrow> 3 \<le> bl"
  proof
    assume ?ex
    then obtain i where i: "i \<in> {window_start pos..<pos}" "is_match input i pos 3" by blast
    show "3 \<le> bl"
    proof (rule ccontr)
      assume "\<not> 3 \<le> bl"
      then have "Suc bl \<le> 3" by simp
      from is_match_mono [OF i(2) this] mx i(1) show False by blast
    qed
  next
    assume big: "3 \<le> bl"
    then have "bl \<noteq> 0" by simp
    with b pos have "pos - bo \<in> {window_start pos..<pos}" "is_match input (pos - bo) pos bl" by auto
    with is_match_mono [OF _ big] show ?ex by blast
  qed
  show "if ?ex
       then \<exists>bo bl ts. search input pos (window_start pos) 0 0 = Inr (bo, bl) \<and> 3 \<le> bl \<and>
              match_token bo bl = token_bytes (Match (word_of_nat bo) (word_of_nat bl)) \<and>
              unat (word_of_nat bo :: u16) = bo \<and> unat (word_of_nat bl :: u8) = bl \<and>
              token_in_range (Match (word_of_nat bo) (word_of_nat bl)) \<and>
              compress_loop input pos out =
                compress_loop input (pos + bl) (out @ match_token bo bl) \<and>
              compress_loop input pos out =
                Inr (out @ token_bytes (Match (word_of_nat bo) (word_of_nat bl)) @ stream_bytes ts) \<and>
              replay (take (pos + bl) input) ts = input
       else \<exists>ts. compress_loop input pos out =
                compress_loop input (pos + 1) (out @ token_bytes (Literal (input ! pos))) \<and>
              compress_loop input pos out =
                Inr (out @ token_bytes (Literal (input ! pos)) @ stream_bytes ts) \<and>
              replay (take (pos + 1) input) ts = input"
  proof (cases "3 \<le> bl")
    case True
    then have bo: "1 \<le> bo" "bo \<le> window_size" and m: "is_match input (pos - bo) pos bl"
      using b by auto
    have bl: "bl \<le> 255" using le by (simp add: lookahead_def)
    have uo: "unat (word_of_nat bo :: u16) = bo" using bo(2) by (simp add: unat_of_nat window_size_def)
    have ul: "unat (word_of_nat bl :: u8) = bl" using bl by (simp add: unat_of_nat)
    have mt: "match_token bo bl = token_bytes (Match (word_of_nat bo) (word_of_nat bl))"
      using bl by (simp add: match_token_bytes min_def)
    have ir: "token_in_range (Match (word_of_nat bo :: u16) (word_of_nat bl :: u8))"
      using uo ul bo bl True by simp
    have st: "compress_loop input pos out = compress_loop input (pos + bl) (out @ match_token bo bl)"
      by (rule compress_loop_step_match [OF pos s True])
    have "pos + bl \<le> length input" using m by (simp add: is_match_def)
    from compress_loop_from [OF this, of "out @ match_token bo bl"] obtain ts where
      ts: "compress_loop input (pos + bl) (out @ match_token bo bl) =
             Inr ((out @ match_token bo bl) @ stream_bytes ts)"
          "replay (take (pos + bl) input) ts = input" by blast
    have res: "compress_loop input pos out =
        Inr (out @ token_bytes (Match (word_of_nat bo) (word_of_nat bl)) @ stream_bytes ts)"
      using st ts(1) mt by simp
    have "\<exists>bo bl ts. search input pos (window_start pos) 0 0 = Inr (bo, bl) \<and> 3 \<le> bl \<and>
              match_token bo bl = token_bytes (Match (word_of_nat bo) (word_of_nat bl)) \<and>
              unat (word_of_nat bo :: u16) = bo \<and> unat (word_of_nat bl :: u8) = bl \<and>
              token_in_range (Match (word_of_nat bo) (word_of_nat bl)) \<and>
              compress_loop input pos out =
                compress_loop input (pos + bl) (out @ match_token bo bl) \<and>
              compress_loop input pos out =
                Inr (out @ token_bytes (Match (word_of_nat bo) (word_of_nat bl)) @ stream_bytes ts) \<and>
              replay (take (pos + bl) input) ts = input"
      using s True mt uo ul ir st res ts(2) by blast
    then show ?thesis using iff True by (simp only: if_True)
  next
    case False
    have st: "compress_loop input pos out =
        compress_loop input (pos + 1) (out @ token_bytes (Literal (input ! pos)))"
      using compress_loop_step_literal [OF pos s False, of out] by simp
    have "pos + 1 \<le> length input" using pos by simp
    from compress_loop_from [OF this, of "out @ token_bytes (Literal (input ! pos))"] obtain ts where
      ts: "compress_loop input (pos + 1) (out @ token_bytes (Literal (input ! pos))) =
             Inr ((out @ token_bytes (Literal (input ! pos))) @ stream_bytes ts)"
          "replay (take (pos + 1) input) ts = input" by blast
    have res: "compress_loop input pos out =
        Inr (out @ token_bytes (Literal (input ! pos)) @ stream_bytes ts)"
      using st ts(1) by simp
    have "\<exists>ts. compress_loop input pos out =
                compress_loop input (pos + 1) (out @ token_bytes (Literal (input ! pos))) \<and>
              compress_loop input pos out =
                Inr (out @ token_bytes (Literal (input ! pos)) @ stream_bytes ts) \<and>
              replay (take (pos + 1) input) ts = input"
      using st res ts(2) by blast
    then show ?thesis using iff False by (simp only: if_False)
  qed
qed

text \<open>
  The statement at positions 7 and 8 of \<open>tie_example\<close>: a literal at 7, a match at 8; and the
  base case and the whole output there.
\<close>

theorem encoder_tokens_in_range_witness:
  "7 < length tie_example \<and> 8 < length tie_example \<and>
   \<not> (\<exists>i \<in> {window_start 7..<7}. is_match tie_example i 7 3) \<and>
   (\<exists>ts. compress_loop tie_example 7 [] =
           compress_loop tie_example (7 + 1) ([] @ token_bytes (Literal (tie_example ! 7))) \<and>
         compress_loop tie_example 7 [] =
           Inr ([] @ token_bytes (Literal (tie_example ! 7)) @ stream_bytes ts) \<and>
         replay (take (7 + 1) tie_example) ts = tie_example) \<and>
   (\<exists>i \<in> {window_start 8..<8}. is_match tie_example i 8 3) \<and>
   (\<exists>bo bl ts. search tie_example 8 (window_start 8) 0 0 = Inr (bo, bl) \<and> 3 \<le> bl \<and>
      compress_loop tie_example 8 [] =
        Inr ([] @ token_bytes (Match (word_of_nat bo) (word_of_nat bl)) @ stream_bytes ts) \<and>
      replay (take (8 + bl) tie_example) ts = tie_example) \<and>
   compress_loop tie_example (length tie_example) [0x2A] = Inr [0x2A] \<and>
   compress tie_example =
     Inr (stream_bytes [Literal 97, Literal 98, Literal 99, Literal 88, Match 4 3,
                        Literal 89, Match 8 3])"
proof -
  have l: "7 < length tie_example" "8 < length tie_example" by (simp_all add: tie_example_def)
  have n7: "\<not> (\<exists>i \<in> {window_start 7..<7}. is_match tie_example i 7 3)"
  proof -
    have "\<forall>i \<in> set [0..<7]. \<not> is_match tie_example i 7 3" by code_simp
    moreover have "{window_start 7..<7} = set [0..<7]"
      by (simp add: window_start_def window_size_def)
    ultimately show ?thesis by simp
  qed
  have y8: "\<exists>i \<in> {window_start 8..<8}. is_match tie_example i 8 3"
    by (rule bexI [of _ 4]) (code_simp, simp add: window_start_def window_size_def)
  note all = encoder_tokens_in_range [of tie_example]
  note base = all [THEN conjunct2, THEN conjunct1, rule_format]
  note step = all [THEN conjunct2, THEN conjunct2, THEN conjunct2, THEN conjunct2, rule_format]
  from step [OF l(1), of "[]"] n7
  have a: "\<exists>ts. compress_loop tie_example 7 [] =
           compress_loop tie_example (7 + 1) ([] @ token_bytes (Literal (tie_example ! 7))) \<and>
         compress_loop tie_example 7 [] =
           Inr ([] @ token_bytes (Literal (tie_example ! 7)) @ stream_bytes ts) \<and>
         replay (take (7 + 1) tie_example) ts = tie_example"
    by (simp only: if_False)
  from step [OF l(2), of "[]"] y8
  have b: "\<exists>bo bl ts. search tie_example 8 (window_start 8) 0 0 = Inr (bo, bl) \<and> 3 \<le> bl \<and>
      compress_loop tie_example 8 [] =
        Inr ([] @ token_bytes (Match (word_of_nat bo) (word_of_nat bl)) @ stream_bytes ts) \<and>
      replay (take (8 + bl) tie_example) ts = tie_example"
    by (simp only: if_True) blast
  have c: "compress_loop tie_example (length tie_example) [0x2A] = Inr [0x2A]"
    by (rule base) simp
  have d: "compress tie_example =
     Inr (stream_bytes [Literal 97, Literal 98, Literal 99, Literal 88, Match 4 3,
                        Literal 89, Match 8 3])"
    by code_simp
  from l n7 y8 a b c d show ?thesis by blast
qed

section \<open>Claims about the container and main\<close>

lemma main_compress_empty: "main_compress [] chunk_size = Inl Cannot_read_input_or_file_empty"
  by (simp add: main_compress_def file_size_def ftell_at_end_def Let_def)

text \<open>
  Claim C1, as amended. For every byte sequence \<open>B\<close>, \<open>compress\<close> returns an output and
  \<open>decompress\<close> of it returns \<open>B\<close>. Through \<^verbatim>\<open>main\<close>: for every non-empty \<open>B\<close> shorter than
  \<open>2 ^ 31\<close> bytes, the lengths a 32-bit \<^verbatim>\<open>long\<close> holds, and every chunk size of at least 1
  such that the 64-bit sum of file size and chunk size does not wrap, compressing \<open>B\<close>
  writes a container and decompressing that container writes \<open>B\<close>. (The chunk count is then
  at most the length and fits the 32-bit count field.) An empty input is refused, whatever
  the chunk size: no container is written.
\<close>

theorem roundtrip_codec_and_pipeline:
  "(\<exists>c. compress B = Inr c \<and> decompress c = Inr B) \<and>
   (B \<noteq> [] \<and> length B < 2 ^ 31 \<and> chunk_size \<noteq> 0 \<and> length B + unat chunk_size \<le> 2 ^ 64 \<longrightarrow>
      pipeline_roundtrip_holds B chunk_size) \<and>
   main_compress [] chunk_size = Inl Cannot_read_input_or_file_empty"
proof (intro conjI impI)
  show "\<exists>c. compress B = Inr c \<and> decompress c = Inr B" by (rule roundtrip_codec)
next
  assume a: "B \<noteq> [] \<and> length B < 2 ^ 31 \<and> chunk_size \<noteq> 0 \<and> length B + unat chunk_size \<le> 2 ^ 64"
  then have "\<exists>container. main_compress B chunk_size = Inr container \<and>
           read_and_decompress_file container = (Some B, Inr ())"
    by (intro pipeline_roundtrip) simp_all
  then show "pipeline_roundtrip_holds B chunk_size"
    by (auto simp: pipeline_roundtrip_holds_def)
next
  show "main_compress [] chunk_size = Inl Cannot_read_input_or_file_empty"
    by (rule main_compress_empty)
qed

text \<open>The statement at the ten bytes \<^verbatim>\<open>ABABABABAB\<close> with chunk size 4.\<close>

theorem roundtrip_codec_and_pipeline_witness:
  "pipeline_roundtrip_holds [0x41, 0x42, 0x41, 0x42, 0x41, 0x42, 0x41, 0x42, 0x41, 0x42] 4 \<and>
   (\<exists>c. compress [0x41, 0x42, 0x41, 0x42, 0x41, 0x42, 0x41, 0x42, 0x41, 0x42] = Inr c \<and>
        decompress c = Inr [0x41, 0x42, 0x41, 0x42, 0x41, 0x42, 0x41, 0x42, 0x41, 0x42])"
proof -
  let ?B = "[0x41, 0x42, 0x41, 0x42, 0x41, 0x42, 0x41, 0x42, 0x41, 0x42] :: u8 list"
  have h: "?B \<noteq> [] \<and> length ?B < 2 ^ 31 \<and> (4 :: u64) \<noteq> 0 \<and>
           length ?B + unat (4 :: u64) \<le> 2 ^ 64"
    by simp
  note t = roundtrip_codec_and_pipeline [of ?B 4]
  from t [THEN conjunct2, THEN conjunct1, rule_format, OF h] t [THEN conjunct1]
  show ?thesis by (rule conjI)
qed

text \<open>
  Claim C1 as stated fails at the empty byte sequence with chunk size 1: \<^verbatim>\<open>main\<close> prints
  \<^verbatim>\<open>cannot read input or file empty\<close>, returns 1 and writes no container.
\<close>

theorem empty_input_roundtrip_counterexample:
  "main_compress [] 1 = Inl Cannot_read_input_or_file_empty \<and> \<not> pipeline_roundtrip_holds [] 1"
  by (simp add: pipeline_roundtrip_holds_def main_compress_empty)

text \<open>
  Claim C5, as amended. Compressing an empty input file is refused with
  \<^verbatim>\<open>cannot read input or file empty\<close>, whatever the chunk size, and no container is
  written. The container of zero chunks, the tag followed by a count of 0 and no record,
  is what \<^verbatim>\<open>write_all\<close> writes for no chunks; decompressing it succeeds and writes an
  output file of length zero.
\<close>

theorem empty_input_refused:
  "main_compress [] chunk_size = Inl Cannot_read_input_or_file_empty \<and>
   write_all [] [] = Inr (magic @ [0, 0, 0, 0]) \<and>
   read_and_decompress_file (magic @ [0, 0, 0, 0]) = (Some [], Inr ()) \<and>
   main_decompress (magic @ [0, 0, 0, 0]) =
     \<lparr>exit_code = 0, output_file = Some [],
      stdout = [''Decompression done.'' @ newline], stderr = []\<rparr>"
proof -
  have "write_all [] [] = Inr (magic @ [0, 0, 0, 0])" by code_simp
  moreover have r: "read_and_decompress_file (magic @ [0, 0, 0, 0]) = (Some [], Inr ())" by code_simp
  moreover have "main_decompress (magic @ [0, 0, 0, 0]) =
     \<lparr>exit_code = 0, output_file = Some [],
      stdout = [''Decompression done.'' @ newline], stderr = []\<rparr>"
    by (simp add: main_decompress_def r)
  ultimately show ?thesis by (simp add: main_compress_empty)
qed

text \<open>
  Claim C5 as stated fails at the empty input with the default chunk size of 1 MiB: the
  run ends at the guard on \<^verbatim>\<open>fsize == 0\<close> and produces no container.
\<close>

theorem empty_input_container_counterexample:
  "main_compress [] 1048576 = Inl Cannot_read_input_or_file_empty"
  by (rule main_compress_empty)

text \<open>
  Claim C6 fails on the code where the 64-bit sum \<^verbatim>\<open>fsize + chunk_size - 1\<close> wraps. For an
  input of 2 bytes and a chunk size of \<open>2 ^ 64 - 1\<close> the sum is 0 and so is the chunk
  count, where the claim has \<open>\<lceil>2 / (2 ^ 64 - 1)\<rceil> = 1\<close>; \<^verbatim>\<open>main\<close> then writes a container of
  zero chunks, which decompresses to an empty file. Where the sum does not wrap, the
  count and the lengths are as claimed (\<open>chunking_without_wrap\<close>).
\<close>

theorem chunk_count_wraps:
  "num_chunks_of (file_size [0x41, 0x42]) 18446744073709551615 = 0 \<and>
   main_compress [0x41, 0x42] 18446744073709551615 = Inr (magic @ [0, 0, 0, 0]) \<and>
   read_and_decompress_file (magic @ [0, 0, 0, 0]) = (Some [], Inr ())"
proof -
  have "num_chunks_of (file_size [0x41, 0x42]) 18446744073709551615 = 0" by code_simp
  moreover have "main_compress [0x41, 0x42] 18446744073709551615 = Inr (magic @ [0, 0, 0, 0])"
    by code_simp
  moreover have "read_and_decompress_file (magic @ [0, 0, 0, 0]) = (Some [], Inr ())" by code_simp
  ultimately show ?thesis by blast
qed

text \<open>
  Claim C7. Decompressing a container whose first four bytes are not \<^verbatim>\<open>MTC1\<close> fails with
  \<^verbatim>\<open>not a MTC1 file\<close>, a format error; the output file is never opened, so no byte of
  output is written; the run prints the error and returns 1.
\<close>

theorem bad_magic_rejected:
  assumes "length tag = 4" "tag \<noteq> magic"
  shows "read_and_decompress_file (tag @ rest) = (None, Inl Not_a_MTC1_file) \<and>
         format_error Not_a_MTC1_file \<and>
         main_decompress (tag @ rest) =
           \<lparr>exit_code = 1, output_file = None, stdout = [],
            stderr = [''Error: not a MTC1 file'' @ newline]\<rparr>"
proof -
  have r: "read_and_decompress_file (tag @ rest) = (None, Inl Not_a_MTC1_file)"
    using assms by (simp add: read_and_decompress_file_def)
  then show ?thesis by (simp add: main_decompress_def format_error_def)
qed

text \<open>The statement at the tag \<^verbatim>\<open>MTC2\<close>.\<close>

theorem bad_magic_rejected_witness:
  "length [0x4D, 0x54, 0x43, 0x32 :: u8] = 4 \<and> [0x4D, 0x54, 0x43, 0x32] \<noteq> magic \<and>
   read_and_decompress_file ([0x4D, 0x54, 0x43, 0x32] @ [1, 0, 0, 0]) = (None, Inl Not_a_MTC1_file) \<and>
   main_decompress ([0x4D, 0x54, 0x43, 0x32] @ [1, 0, 0, 0]) =
     \<lparr>exit_code = 1, output_file = None, stdout = [],
      stderr = [''Error: not a MTC1 file'' @ newline]\<rparr>"
proof -
  have a: "length [0x4D, 0x54, 0x43, 0x32 :: u8] = 4" by simp
  have b: "[0x4D, 0x54, 0x43, 0x32] \<noteq> magic" by (simp add: magic_def)
  from bad_magic_rejected [OF a b, of "[1, 0, 0, 0]"] a b show ?thesis by simp
qed

text \<open>
  Claim C8, as amended. For every container \<^verbatim>\<open>write_all\<close> writes from chunks that all
  decode, whatever original sizes it declares, equal to the decoded lengths or not, the
  decompressing run is not aborted and writes all the decoded bytes in record order, and it
  reports nothing about the sizes: it prints \<^verbatim>\<open>Decompression done.\<close>, nothing on the error
  stream, and returns 0.
\<close>

theorem size_mismatch_not_reported:
  assumes "length original_sizes = length chunks" "length chunks < 2 ^ 32"
    and "list_all2 (\<lambda>chunk decomp. length chunk < 2 ^ 64 \<and> decompress chunk = Inr decomp) chunks ds"
  shows "\<exists>container. write_all chunks original_sizes = Inr container \<and>
           main_decompress container =
             \<lparr>exit_code = 0, output_file = Some (concat ds),
              stdout = [''Decompression done.'' @ newline], stderr = []\<rparr>"
proof -
  let ?recs = "zip original_sizes chunks"
  let ?container = "magic @ le_bytes 4 (word_of_nat (length chunks) :: u32) @ records_bytes ?recs"
  have w: "write_all chunks original_sizes = Inr ?container" by (rule write_all_eq [OF assms(1)])
  have l: "length ?recs = length chunks" using assms(1) by simp
  have "list_all2 (\<lambda>(orig, chunk) decomp. length chunk < 2 ^ 64 \<and> decompress chunk = Inr decomp) ?recs ds"
    using assms(1,3) by (auto simp: list_all2_conv_all_nth)
  from read_container [OF _ this] l assms(2)
  have "read_and_decompress_file ?container = (Some (concat ds), Inr ())" by simp
  then show ?thesis using w by (simp add: main_decompress_def)
qed

text \<open>
  The statement at one chunk that decodes to one byte and declares an original size of 5.
\<close>

theorem size_mismatch_not_reported_witness:
  "write_all [[0x00, 0x41]] [5] = Inr mismatch_container \<and>
   decompress [0x00, 0x41] = Inr [0x41] \<and> length [0x41 :: u8] \<noteq> unat (5 :: u64) \<and>
   (\<exists>container. write_all [[0x00, 0x41]] [5] = Inr container \<and>
      main_decompress container =
        \<lparr>exit_code = 0, output_file = Some (concat [[0x41]]),
         stdout = [''Decompression done.'' @ newline], stderr = []\<rparr>)"
proof -
  have d: "decompress [0x00, 0x41] = Inr [0x41]" by code_simp
  have w: "write_all [[0x00, 0x41]] [5] = Inr mismatch_container" by code_simp
  have "list_all2 (\<lambda>chunk decomp. length chunk < 2 ^ 64 \<and> decompress chunk = Inr decomp)
          [[0x00, 0x41]] [[0x41]]"
    using d by simp
  from size_mismatch_not_reported [OF _ _ this, of "[5]"] d w show ?thesis by simp
qed

text \<open>
  Claim C8 as stated fails at \<open>mismatch_container\<close>: the record declares 5 bytes and
  decodes to 1, and everything the run prints is what it prints for the container that
  declares 1; no warning is among it.
\<close>

theorem size_mismatch_counterexample:
  "main_decompress mismatch_container =
     \<lparr>exit_code = 0, output_file = Some [0x41],
      stdout = [''Decompression done.'' @ newline], stderr = []\<rparr> \<and>
   main_decompress matching_container = main_decompress mismatch_container"
proof -
  have "read_and_decompress_file mismatch_container = (Some [0x41], Inr ())" by code_simp
  moreover have "read_and_decompress_file matching_container = (Some [0x41], Inr ())" by code_simp
  ultimately show ?thesis by (simp add: main_decompress_def)
qed

end
